theory Spec2Isabelle
  imports Main "HOL-Library.Multiset"
begin

section \<open>Data model\<close>

text \<open>
  The task manager's backend keeps two collections that matter here: the users
  (\<^verbatim>\<open>models/User.js\<close>) and the tasks (\<^verbatim>\<open>models/Todo.js\<close>). An ObjectId is
  modelled as a natural number; the order of the numbers is the order the store sorts
  ObjectIds by.
\<close>

type_synonym oid = nat

datatype role = User | Admin

record user =
  user_id :: oid
  role :: role

text \<open>
  A document of the \<^verbatim>\<open>Todo\<close> schema. \<open>text'\<close> is the schema's \<^verbatim>\<open>text\<close>
  (required, trimmed); the empty string stands for every value the \<^verbatim>\<open>required\<close>
  validator refuses (missing, null, empty). \<open>completed\<close> may be null, hence the option.
  \<open>createdAt\<close> and \<open>updatedAt\<close> are the schema's timestamps.
\<close>

record task =
  task_id :: oid
  text' :: string
  completed :: "bool option"
  owner :: oid
  dueDate :: "int option"
  tag :: "string option"
  team :: "oid option"
  parentTask :: "oid option"
  createdAt :: nat
  updatedAt :: nat

record db =
  todos :: "task list"
  users :: "user list"

text \<open>
  A request body is a JSON object: its keys in order, each with a value. \<open>JId n\<close> is the
  string that spells ObjectId \<open>n\<close> the way the store prints it (\<^verbatim>\<open>toString()\<close>: 24
  hexadecimal digits, the letters in lower case). \<open>JIdAlt n\<close> is a string that spells
  the same ObjectId with a letter in upper case; there is one whenever the printed form
  has a letter. \<open>JStr\<close> is any other string. Arrays and nested objects are left out.
  Reading a key that is not there gives \<open>None\<close> (JavaScript's \<^verbatim>\<open>undefined\<close>). The
  keys of a parsed object are distinct; where a fact needs it, it says
  \<open>distinct (map fst b)\<close>.
\<close>

datatype json = JNull | JBool bool | JNum int | JStr string | JId oid | JIdAlt oid

type_synonym body = "(string \<times> json) list"

definition field :: "body \<Rightarrow> string \<Rightarrow> json option" where
  "field b k = map_of b k"

text \<open>JavaScript truthiness of a value read from the body.\<close>

fun truthy :: "json option \<Rightarrow> bool" where
  "truthy None = False"
| "truthy (Some JNull) = False"
| "truthy (Some (JBool b)) = b"
| "truthy (Some (JNum n)) = (n \<noteq> 0)"
| "truthy (Some (JStr s)) = (s \<noteq> [])"
| "truthy (Some (JId n)) = True"
| "truthy (Some (JIdAlt n)) = True"

text \<open>
  The cast of a value to an ObjectId, as a query and the schema do it: the string may
  spell the id in either case.
\<close>

fun castObjectId :: "json \<Rightarrow> oid option" where
  "castObjectId (JId n) = Some n"
| "castObjectId (JIdAlt n) = Some n"
| "castObjectId v = None"

text \<open>
  Every response the controllers send other than success. \<open>StoreError\<close> is the
  \<^verbatim>\<open>res.status(400).send(e)\<close> branch of the handlers: an error thrown by the store
  that is not a validation error (a value that is no ObjectId given to a query, a
  duplicate \<^verbatim>\<open>_id\<close>).
\<close>

datatype error =
    InvalidOwner
  | ValidationError
  | StoreError
  | NotFound
  | InvalidUpdate
  | SelfParentError
  | CycleError

definition isAdmin :: "user \<Rightarrow> bool" where
  "isAdmin u = (role u = Admin)"

section \<open>Store queries\<close>

definition findById :: "task list \<Rightarrow> oid \<Rightarrow> task option" where
  "findById ts i = find (\<lambda>t. task_id t = i) ts"

text \<open>\<^verbatim>\<open>Todo.findOne({ _id, owner })\<close>.\<close>

definition findOne :: "task list \<Rightarrow> oid \<Rightarrow> oid \<Rightarrow> task option" where
  "findOne ts i u = find (\<lambda>t. task_id t = i \<and> owner t = u) ts"

definition findUser :: "user list \<Rightarrow> oid \<Rightarrow> user option" where
  "findUser us i = find (\<lambda>u. user_id u = i) us"

text \<open>
  The fetch every handler for a single task starts with: an administrator finds the
  task by id, a user only among the tasks they own.
\<close>

definition findScoped :: "user \<Rightarrow> task list \<Rightarrow> oid \<Rightarrow> task option" where
  "findScoped requester ts i =
     (if isAdmin requester then findById ts i else findOne ts i (user_id requester))"

section \<open>Schema casts and validation\<close>

text \<open>The schema's \<^verbatim>\<open>trim\<close>, on the ASCII white space.\<close>

definition isSpace :: "char \<Rightarrow> bool" where
  "isSpace c = (c \<in> set [CHR '' '', CHR 0x09, CHR 0x0A, CHR 0x0B, CHR 0x0C, CHR 0x0D])"

definition trim :: "string \<Rightarrow> string" where
  "trim s = rev (dropWhile isSpace (rev (dropWhile isSpace s)))"

text \<open>
  Assigning a body value to a path of the document. The schema casts the value to the
  path's type; a value that is not of that type is a cast error, which \<^verbatim>\<open>save\<close>
  reports as a validation error (\<open>None\<close> here). The schema is strict: a key that is not a
  path of the schema is dropped.
\<close>

definition assign :: "string \<Rightarrow> json \<Rightarrow> task \<Rightarrow> task option" where
  "assign k v t =
    (if k = ''text'' then
       (case v of JStr s \<Rightarrow> Some (t\<lparr>text' := trim s\<rparr>)
                | JNull \<Rightarrow> Some (t\<lparr>text' := []\<rparr>)
                | _ \<Rightarrow> None)
     else if k = ''completed'' then
       (case v of JBool b \<Rightarrow> Some (t\<lparr>completed := Some b\<rparr>)
                | JNull \<Rightarrow> Some (t\<lparr>completed := None\<rparr>)
                | _ \<Rightarrow> None)
     else if k = ''dueDate'' then
       (case v of JNum n \<Rightarrow> Some (t\<lparr>dueDate := Some n\<rparr>)
                | JNull \<Rightarrow> Some (t\<lparr>dueDate := None\<rparr>)
                | _ \<Rightarrow> None)
     else if k = ''tag'' then
       (case v of JStr s \<Rightarrow> Some (t\<lparr>tag := Some (trim s)\<rparr>)
                | JNull \<Rightarrow> Some (t\<lparr>tag := None\<rparr>)
                | _ \<Rightarrow> None)
     else if k = ''team'' then
       (case v of JId n \<Rightarrow> Some (t\<lparr>team := Some n\<rparr>)
                | JIdAlt n \<Rightarrow> Some (t\<lparr>team := Some n\<rparr>)
                | JNull \<Rightarrow> Some (t\<lparr>team := None\<rparr>)
                | _ \<Rightarrow> None)
     else if k = ''parentTask'' then
       (case v of JId n \<Rightarrow> Some (t\<lparr>parentTask := Some n\<rparr>)
                | JIdAlt n \<Rightarrow> Some (t\<lparr>parentTask := Some n\<rparr>)
                | JNull \<Rightarrow> Some (t\<lparr>parentTask := None\<rparr>)
                | _ \<Rightarrow> None)
     else if k = ''owner'' then
       (case v of JId n \<Rightarrow> Some (t\<lparr>owner := n\<rparr>)
                | JIdAlt n \<Rightarrow> Some (t\<lparr>owner := n\<rparr>)
                | _ \<Rightarrow> None)
     else Some t)"

text \<open>Assigning the entries of a body one after the other; the first cast error ends it.\<close>

fun assignAll :: "body \<Rightarrow> task \<Rightarrow> task option" where
  "assignAll [] t = Some t"
| "assignAll ((k, v) # kvs) t =
     (case assign k v t of None \<Rightarrow> None | Some t' \<Rightarrow> assignAll kvs t')"

text \<open>The \<^verbatim>\<open>required\<close> validator of \<^verbatim>\<open>text\<close>, run by \<^verbatim>\<open>save\<close>.\<close>

definition validate :: "task \<Rightarrow> bool" where
  "validate t = (text' t \<noteq> [])"

section \<open>createTask\<close>

text \<open>
  \<^verbatim>\<open>new Todo({...req.body, owner: ownerId})\<close>: the document starts from the schema's
  defaults, takes the body's entries in order, and \<open>owner\<close> is set last, whatever the
  body says. \<open>newId\<close> is the \<^verbatim>\<open>_id\<close> of the new document (the driver generates one
  when the body gives none) and \<open>now\<close> the clock; an \<^verbatim>\<open>_id\<close> or a timestamp written
  in the body itself is not modelled apart from that.
\<close>

definition newTodo :: "body \<Rightarrow> oid \<Rightarrow> oid \<Rightarrow> nat \<Rightarrow> task option" where
  "newTodo b ownerId newId now =
     assignAll (filter (\<lambda>(k, v). k \<noteq> ''owner'') b)
       \<lparr>task_id = newId, text' = [], completed = Some False, owner = ownerId,
        dueDate = None, tag = None, team = None, parentTask = None,
        createdAt = now, updatedAt = now\<rparr>"

text \<open>
  The owner of the new task (lines 21 to 36 of the controller): the body's \<open>owner\<close> when
  the creator is an administrator and gave one, the creator otherwise.
\<close>

definition resolveOwner :: "user \<Rightarrow> body \<Rightarrow> db \<Rightarrow> error + oid" where
  "resolveOwner creator b d =
     (if isAdmin creator \<and> truthy (field b ''owner'') then
        (case Option.bind (field b ''owner'') castObjectId of
           Some u \<Rightarrow>
             (case findUser (users d) u of
                None \<Rightarrow> Inl InvalidOwner
              | Some assignedUser \<Rightarrow> Inr (user_id assignedUser))
         | None \<Rightarrow> Inl StoreError)
      else Inr (user_id creator))"

text \<open>
  \<^verbatim>\<open>task.save()\<close> of a new document: validation first, then the insert, which
  the store refuses when the \<^verbatim>\<open>_id\<close> is taken.
\<close>

definition createTask :: "user \<Rightarrow> body \<Rightarrow> oid \<Rightarrow> nat \<Rightarrow> db \<Rightarrow> (error + task) \<times> db" where
  "createTask creator b newId now d =
     (case resolveOwner creator b d of
        Inl e \<Rightarrow> (Inl e, d)
      | Inr ownerId \<Rightarrow>
          (case newTodo b ownerId newId now of
             None \<Rightarrow> (Inl ValidationError, d)
           | Some t \<Rightarrow>
               if \<not> validate t then (Inl ValidationError, d)
               else if newId \<in> task_id ` set (todos d) then (Inl StoreError, d)
               else (Inr t, d\<lparr>todos := todos d @ [t]\<rparr>)))"

text \<open>
  The first component of \<^verbatim>\<open>createTask\<close> is the document saved. What the handler
  sends (lines 46 to 53) is that document read again and populated:
  \<^verbatim>\<open>populate('parentTask', 'text')\<close> puts the parent found in the place of its id,
  and \<^verbatim>\<open>null\<close> when no task has that id. Here the populated document keeps the id
  of a parent that is stored and has none for a parent that is not; the parent's
  \<^verbatim>\<open>text\<close> and the populated owner are left out.
\<close>

definition populateParent :: "task list \<Rightarrow> task \<Rightarrow> task" where
  "populateParent ts t =
     (case parentTask t of
        None \<Rightarrow> t
      | Some p \<Rightarrow> (case findById ts p of None \<Rightarrow> t\<lparr>parentTask := None\<rparr> | Some parent \<Rightarrow> t))"

definition populatedTask :: "task list \<Rightarrow> oid \<Rightarrow> task option" where
  "populatedTask ts i =
     (case findById ts i of None \<Rightarrow> None | Some t \<Rightarrow> Some (populateParent ts t))"

section \<open>getTasks and getTaskById\<close>

text \<open>
  \<^verbatim>\<open>.sort({ parentTask: 1, createdAt: 1 })\<close>: ascending by \<open>parentTask\<close>, a missing
  one before every ObjectId, then ascending by \<open>createdAt\<close>.
\<close>

definition taskLe :: "task \<Rightarrow> task \<Rightarrow> bool" where
  "taskLe a b =
     (case parentTask a of
        None \<Rightarrow> (case parentTask b of None \<Rightarrow> createdAt a \<le> createdAt b | Some y \<Rightarrow> True)
      | Some x \<Rightarrow>
          (case parentTask b of
             None \<Rightarrow> False
           | Some y \<Rightarrow> x < y \<or> (x = y \<and> createdAt a \<le> createdAt b)))"

fun insertSorted :: "task \<Rightarrow> task list \<Rightarrow> task list" where
  "insertSorted a [] = [a]"
| "insertSorted a (b # bs) = (if taskLe a b then a # b # bs else b # insertSorted a bs)"

fun sortTasks :: "task list \<Rightarrow> task list" where
  "sortTasks [] = []"
| "sortTasks (a # as) = insertSorted a (sortTasks as)"

definition getTasks :: "user \<Rightarrow> db \<Rightarrow> task list" where
  "getTasks requester d =
     (if isAdmin requester then sortTasks (todos d)
      else sortTasks (filter (\<lambda>t. owner t = user_id requester) (todos d)))"

definition getTaskById :: "user \<Rightarrow> oid \<Rightarrow> db \<Rightarrow> error + task" where
  "getTaskById requester i d =
     (case findScoped requester (todos d) i of
        None \<Rightarrow> Inl NotFound
      | Some t \<Rightarrow> Inr t)"

section \<open>updateTask\<close>

definition allowedUpdates :: "string list" where
  "allowedUpdates = [''text'', ''completed'', ''dueDate'', ''tag'', ''parentTask'', ''owner'']"

text \<open>
  The loop of lines 190 to 197: \<open>current\<close> is the document the walk stands on, if any.
  The result says whether the walk met the task being edited. The loop has no bound, so
  the function is partial: \<open>None\<close> is a walk that never ends.
\<close>

partial_function (option) cycleWalk :: "task list \<Rightarrow> oid \<Rightarrow> task option \<Rightarrow> bool option" where
  "cycleWalk ts editedId current =
     (case current of
        None \<Rightarrow> Some False
      | Some c \<Rightarrow>
          if task_id c = editedId then Some True
          else cycleWalk ts editedId
                 (case parentTask c of None \<Rightarrow> None | Some p \<Rightarrow> findById ts p))"

text \<open>
  The two validations of lines 181 to 198, run on the body's \<open>parentTask\<close> and the task
  found. Line 182 compares strings:
  \<^verbatim>\<open>req.body.parentTask.toString() === task._id.toString()\<close> holds exactly when the
  value is the task's id as the store prints it. Line 190 casts the value instead, so the
  walk starts from the task the value spells in either case. A truthy value that spells
  no ObjectId makes \<^verbatim>\<open>Todo.findById\<close> throw.
\<close>

definition parentChecks :: "task list \<Rightarrow> json option \<Rightarrow> task \<Rightarrow> (error + unit) option" where
  "parentChecks ts pt t =
     (if truthy pt \<and> pt = Some (JId (task_id t)) then Some (Inl SelfParentError)
      else if truthy pt then
        (case Option.bind pt castObjectId of
           Some potentialParentId \<Rightarrow>
             Option.bind (cycleWalk ts (task_id t) (findById ts potentialParentId))
               (\<lambda>met. Some (if met then Inl CycleError else Inr ()))
         | None \<Rightarrow> Some (Inl StoreError))
      else Some (Inr ()))"

text \<open>
  The \<^verbatim>\<open>updates.forEach\<close> of lines 203 to 211: every key of the body is assigned,
  except \<open>owner\<close> when the requester is no administrator.
\<close>

definition applyUpdates :: "user \<Rightarrow> body \<Rightarrow> task \<Rightarrow> task option" where
  "applyUpdates requester b t =
     assignAll (filter (\<lambda>(k, v). \<not> (k = ''owner'' \<and> \<not> isAdmin requester)) b) t"

text \<open>
  \<^verbatim>\<open>task.save()\<close> of a document that is in the collection: the stored document with
  that \<^verbatim>\<open>_id\<close> (the store keeps them unique) is replaced.
\<close>

definition replaceTask :: "task \<Rightarrow> task list \<Rightarrow> task list" where
  "replaceTask t' ts = map (\<lambda>t. if task_id t = task_id t' then t' else t) ts"

text \<open>
  The schema's timestamps on saving a stored document: \<open>updatedAt\<close> is set when the
  document was modified.
\<close>

definition stamp :: "nat \<Rightarrow> task \<Rightarrow> task \<Rightarrow> task" where
  "stamp now old new = (if new = old then new else new\<lparr>updatedAt := now\<rparr>)"

text \<open>Lines 202 to 227: the updates are applied to the task found and it is saved.\<close>

definition saveUpdates :: "user \<Rightarrow> body \<Rightarrow> nat \<Rightarrow> db \<Rightarrow> task \<Rightarrow> (error + task) \<times> db" where
  "saveUpdates requester b now d t =
     (case applyUpdates requester b t of
        None \<Rightarrow> (Inl ValidationError, d)
      | Some t' \<Rightarrow>
          if \<not> validate t' then (Inl ValidationError, d)
          else (Inr (stamp now t t'),
                d\<lparr>todos := replaceTask (stamp now t t') (todos d)\<rparr>))"

definition updateTask :: "user \<Rightarrow> oid \<Rightarrow> body \<Rightarrow> nat \<Rightarrow> db \<Rightarrow> ((error + task) \<times> db) option" where
  "updateTask requester i b now d =
     (if \<not> list_all (\<lambda>update. update \<in> set allowedUpdates) (map fst b)
      then Some (Inl InvalidUpdate, d)
      else
        (case findScoped requester (todos d) i of
           None \<Rightarrow> Some (Inl NotFound, d)
         | Some t \<Rightarrow>
             Option.bind (parentChecks (todos d) (field b ''parentTask'') t)
               (\<lambda>checked.
                  case checked of
                    Inl e \<Rightarrow> Some (Inl e, d)
                  | Inr _ \<Rightarrow> Some (saveUpdates requester b now d t))))"

section \<open>deleteTask and the cascade\<close>

text \<open>
  The \<open>owner\<close> entry of a query filter: the key may be missing (\<^verbatim>\<open>findByIdAndDelete\<close>
  gives the filter \<^verbatim>\<open>{ _id }\<close>), it may be there with the value \<^verbatim>\<open>undefined\<close>
  (the hook writes \<^verbatim>\<open>owner: query.owner\<close> into its own filters, and reading a
  missing key gives \<^verbatim>\<open>undefined\<close>), or it holds an ObjectId.
\<close>

datatype ownerEntry = NoOwnerKey | OwnerUndefined | OwnerIs oid

text \<open>\<^verbatim>\<open>owner: query.owner\<close>: the entry written from what reading \<open>owner\<close> gives.\<close>

fun queryOwner :: "ownerEntry \<Rightarrow> ownerEntry" where
  "queryOwner NoOwnerKey = OwnerUndefined"
| "queryOwner OwnerUndefined = OwnerUndefined"
| "queryOwner (OwnerIs u) = OwnerIs u"

text \<open>
  Whether a document passes the \<open>owner\<close> entry of a filter. A filter without the key
  lets every document through. An entry whose value is \<^verbatim>\<open>undefined\<close> is sent to
  the store as null (\<^verbatim>\<open>server.js\<close> connects with the driver's defaults), and null
  matches a document whose owner is null or missing: no stored task, since the schema
  requires the owner.
\<close>

fun ownerMatches :: "ownerEntry \<Rightarrow> task \<Rightarrow> bool" where
  "ownerMatches NoOwnerKey t = True"
| "ownerMatches OwnerUndefined t = False"
| "ownerMatches (OwnerIs u) t = (owner t = u)"

text \<open>A \<^verbatim>\<open>for ... of\<close> loop with awaited calls: the state goes through every call.\<close>

primrec forEach :: "('a \<Rightarrow> 's \<Rightarrow> 's option) \<Rightarrow> 'a list \<Rightarrow> 's \<Rightarrow> 's option" where
  "forEach f [] s = Some s"
| "forEach f (x # xs) s = Option.bind (f x s) (forEach f xs)"

lemma forEach_mono [partial_function_mono]:
  assumes "\<And>x s. mono_option (\<lambda>g. F g x s)"
  shows "mono_option (\<lambda>g. forEach (F g) xs s)"
proof (induction xs arbitrary: s)
  case Nil
  show ?case by (simp add: option.const_mono)
next
  case (Cons x xs)
  show ?case
    unfolding forEach.simps
    by (rule bind_mono) (rule assms, rule Cons.IH)
qed

text \<open>Removing the first document that a predicate accepts.\<close>

fun removeFirst :: "(task \<Rightarrow> bool) \<Rightarrow> task list \<Rightarrow> task list" where
  "removeFirst P [] = []"
| "removeFirst P (t # ts) = (if P t then ts else t # removeFirst P ts)"

text \<open>
  \<^verbatim>\<open>findOneAndDelete({ _id, owner })\<close> with its \<^verbatim>\<open>pre\<close> hook. The state is the
  collection together with the ids removed so far, in the order of their removal. The
  hook runs first: it reads the children of \<open>taskIdToDelete\<close> that pass the owner entry
  and calls \<^verbatim>\<open>findOneAndDelete\<close> on each; then the query itself removes the first
  document it matches, if any, and returns it. The recursion follows the data, so the
  function is partial.
\<close>

partial_function (option) findOneAndDelete ::
  "oid \<Rightarrow> ownerEntry \<Rightarrow> task list \<times> oid list \<Rightarrow> (task option \<times> task list \<times> oid list) option"
where
  "findOneAndDelete taskIdToDelete q st =
     Option.bind
       (forEach
          (\<lambda>child st'.
              Option.bind (findOneAndDelete (task_id child) (queryOwner q) st')
                (\<lambda>r. Some (snd r)))
          (filter (\<lambda>c. parentTask c = Some taskIdToDelete \<and> ownerMatches (queryOwner q) c) (fst st))
          st)
       (\<lambda>st'.
          Some (find (\<lambda>t. task_id t = taskIdToDelete \<and> ownerMatches q t) (fst st'),
                removeFirst (\<lambda>t. task_id t = taskIdToDelete \<and> ownerMatches q t) (fst st'),
                (case find (\<lambda>t. task_id t = taskIdToDelete \<and> ownerMatches q t) (fst st') of
                   None \<Rightarrow> snd st'
                 | Some t \<Rightarrow> snd st' @ [taskIdToDelete])))"

text \<open>
  The controller: the administrator's query is \<^verbatim>\<open>findByIdAndDelete(_id)\<close>, a
  user's is \<^verbatim>\<open>findOneAndDelete({ _id, owner: requester._id })\<close>. The third component
  of the result is the order in which documents were removed.
\<close>

definition deleteTask ::
  "user \<Rightarrow> oid \<Rightarrow> db \<Rightarrow> ((error + task) \<times> db \<times> oid list) option" where
  "deleteTask requester i d =
     Option.bind
       (findOneAndDelete i (if isAdmin requester then NoOwnerKey else OwnerIs (user_id requester))
          (todos d, []))
       (\<lambda>r. Some ((case fst r of None \<Rightarrow> Inl NotFound | Some t \<Rightarrow> Inr t),
                  d\<lparr>todos := fst (snd r)\<rparr>, snd (snd r)))"

section \<open>The parent relation\<close>

text \<open>
  The edges of the task tree, from a child's id to its parent's id, as the collection
  stores them; \<open>edgesOf m\<close> keeps the edges whose child passes \<open>m\<close>. The relation is a
  forest when it is acyclic: no id reaches itself along \<open>parentTask\<close> pointers.
\<close>

definition edgesOf :: "(task \<Rightarrow> bool) \<Rightarrow> task list \<Rightarrow> (oid \<times> oid) list" where
  "edgesOf m ts =
     concat (map (\<lambda>c. case parentTask c of
                         None \<Rightarrow> []
                       | Some p \<Rightarrow> if m c then [(task_id c, p)] else []) ts)"

definition parent_rel :: "task list \<Rightarrow> (oid \<times> oid) set" where
  "parent_rel ts = set (edgesOf (\<lambda>c. True) ts)"

section \<open>The cascade in terms of the parent relation\<close>

text \<open>
  The subtree the specification has a delete remove (I6, P5): task \<open>i\<close> and every id
  that reaches \<open>i\<close> along \<open>parentTask\<close> pointers of tasks in the scope of the triggering
  delete, which is every task for an administrator (the delete filters by id only) and
  the user's own tasks for a user.
\<close>

definition scopedSubtree :: "user \<Rightarrow> task list \<Rightarrow> oid \<Rightarrow> oid set" where
  "scopedSubtree requester ts i =
     {x. (x, i) \<in> (set (edgesOf (\<lambda>c. isAdmin requester \<or> owner c = user_id requester) ts))\<^sup>*}"

text \<open>
  An order of removals in which no task is removed after one of its ancestors: nothing
  that follows an id in the list is a descendant of it.
\<close>

fun descendantsFirst :: "(oid \<times> oid) set \<Rightarrow> oid list \<Rightarrow> bool" where
  "descendantsFirst E [] = True"
| "descendantsFirst E (p # zs) = ((\<forall>c\<in>set zs. (c, p) \<notin> E\<^sup>+) \<and> descendantsFirst E zs)"

text \<open>The collection without the tasks whose id is in a set.\<close>

definition without :: "oid set \<Rightarrow> task list \<Rightarrow> task list" where
  "without K ts = filter (\<lambda>t. task_id t \<notin> K) ts"

text \<open>A set of ids that holds, with every id, the ids of its children.\<close>

definition downClosed :: "(oid \<times> oid) set \<Rightarrow> oid set \<Rightarrow> bool" where
  "downClosed E K = (\<forall>y p. (y, p) \<in> E \<longrightarrow> p \<in> K \<longrightarrow> y \<in> K)"

section \<open>Example data\<close>

text \<open>A stored task of which only the id, the owner, the parent and the creation time matter.\<close>

definition exTask :: "oid \<Rightarrow> oid \<Rightarrow> oid option \<Rightarrow> nat \<Rightarrow> task" where
  "exTask i u p c =
     \<lparr>task_id = i, text' = ''task'', completed = Some False, owner = u, dueDate = None,
      tag = None, team = None, parentTask = p, createdAt = c, updatedAt = c\<rparr>"

section \<open>Facts about the casts\<close>

lemma update_is_same:
  "(t\<lparr>text' := a\<rparr> = t) = (text' t = a)"
  "(t\<lparr>completed := b\<rparr> = t) = (completed t = b)"
  "(t\<lparr>dueDate := c\<rparr> = t) = (dueDate t = c)"
  "(t\<lparr>tag := e\<rparr> = t) = (tag t = e)"
  "(t\<lparr>team := f\<rparr> = t) = (team t = f)"
  "(t\<lparr>parentTask := g\<rparr> = t) = (parentTask t = g)"
  "(t\<lparr>owner := h\<rparr> = t) = (owner t = h)"
  for t :: task
  by (cases t; auto)+

lemma assign_task_id: "assign k v t = Some t' \<Longrightarrow> task_id t' = task_id t"
  by (auto simp: assign_def split: if_splits json.splits)

lemma assign_owner: "k \<noteq> ''owner'' \<Longrightarrow> assign k v t = Some t' \<Longrightarrow> owner t' = owner t"
  by (auto simp: assign_def split: if_splits json.splits)

lemma assign_idem: "assign k v t = Some t' \<Longrightarrow> assign k v t' = Some t'"
  by (auto simp: assign_def split: if_splits json.splits)

lemma assign_keeps:
  assumes "k \<noteq> k'" and "assign k v t = Some t" and "assign k' v' t = Some t2"
  shows "assign k v t2 = Some t2"
  using assms
  by (auto simp: assign_def update_is_same split: if_splits json.splits)

lemma assignAll_Cons_Some:
  assumes "assignAll (kv # b) t = Some t'"
  obtains t1 where "assign (fst kv) (snd kv) t = Some t1" and "assignAll b t1 = Some t'"
  using assms by (cases kv) (auto split: option.splits)

lemma assignAll_task_id: "assignAll b t = Some t' \<Longrightarrow> task_id t' = task_id t"
proof (induction b arbitrary: t)
  case Nil
  then show ?case by simp
next
  case (Cons kv b)
  from Cons.prems obtain t1 where a: "assign (fst kv) (snd kv) t = Some t1"
    and r: "assignAll b t1 = Some t'"
    by (rule assignAll_Cons_Some)
  from Cons.IH [OF r] assign_task_id [OF a] show ?case by simp
qed

lemma assignAll_owner:
  "''owner'' \<notin> fst ` set b \<Longrightarrow> assignAll b t = Some t' \<Longrightarrow> owner t' = owner t"
proof (induction b arbitrary: t)
  case Nil
  then show ?case by simp
next
  case (Cons kv b)
  from Cons.prems(2) obtain t1 where a: "assign (fst kv) (snd kv) t = Some t1"
    and r: "assignAll b t1 = Some t'"
    by (rule assignAll_Cons_Some)
  from Cons.prems(1) have k: "fst kv \<noteq> ''owner''" and rest: "''owner'' \<notin> fst ` set b"
    by auto
  from Cons.IH [OF rest r] assign_owner [OF k a] show ?case by simp
qed

lemma assignAll_keeps:
  "k \<notin> fst ` set b \<Longrightarrow> assign k v t = Some t \<Longrightarrow> assignAll b t = Some t'
     \<Longrightarrow> assign k v t' = Some t'"
proof (induction b arbitrary: t)
  case Nil
  then show ?case by simp
next
  case (Cons kv b)
  from Cons.prems(3) obtain t1 where a: "assign (fst kv) (snd kv) t = Some t1"
    and r: "assignAll b t1 = Some t'"
    by (rule assignAll_Cons_Some)
  from Cons.prems(1) have ne: "k \<noteq> fst kv" and rest: "k \<notin> fst ` set b" by auto
  from assign_keeps [OF ne Cons.prems(2) a] have "assign k v t1 = Some t1" .
  from Cons.IH [OF rest this r] show ?case .
qed

text \<open>
  After a body with distinct keys has been assigned, the document holds each of its
  values: assigning one of them again changes nothing.
\<close>

lemma assignAll_holds:
  "distinct (map fst b) \<Longrightarrow> (k, v) \<in> set b \<Longrightarrow> assignAll b t = Some t'
     \<Longrightarrow> assign k v t' = Some t'"
proof (induction b arbitrary: t)
  case Nil
  then show ?case by simp
next
  case (Cons kv b)
  from Cons.prems(3) obtain t1 where a: "assign (fst kv) (snd kv) t = Some t1"
    and r: "assignAll b t1 = Some t'"
    by (rule assignAll_Cons_Some)
  from Cons.prems(1) have d: "distinct (map fst b)" and nin: "fst kv \<notin> fst ` set b" by auto
  show ?case
  proof (cases "(k, v) = kv")
    case True
    with a have "assign k v t1 = Some t1" by (auto dest: assign_idem)
    from assignAll_keeps [OF _ this r] nin True show ?thesis by auto
  next
    case False
    with Cons.prems(2) have "(k, v) \<in> set b" by auto
    from Cons.IH [OF d this r] show ?thesis .
  qed
qed

lemma field_member: "field b k = Some v \<Longrightarrow> (k, v) \<in> set b"
  by (simp add: field_def map_of_SomeD)

lemma resolveOwner_user: "\<not> isAdmin creator \<Longrightarrow> resolveOwner creator b d = Inr (user_id creator)"
  by (simp add: resolveOwner_def)

section \<open>Facts about the scoped fetch\<close>

lemma findScoped_Some:
  "findScoped requester ts i = Some t \<Longrightarrow>
     t \<in> set ts \<and> task_id t = i \<and> (isAdmin requester \<or> owner t = user_id requester)"
  by (auto simp: findScoped_def findById_def findOne_def find_Some_iff split: if_splits)

lemma findScoped_found:
  assumes "t \<in> set ts" and "isAdmin requester \<or> owner t = user_id requester"
  shows "\<exists>t'. findScoped requester ts (task_id t) = Some t'"
proof (cases "isAdmin requester")
  case True
  from assms(1) have "find (\<lambda>x. task_id x = task_id t) ts \<noteq> None"
    by (auto simp: find_None_iff)
  with True show ?thesis by (auto simp: findScoped_def findById_def)
next
  case False
  with assms have "find (\<lambda>x. task_id x = task_id t \<and> owner x = user_id requester) ts \<noteq> None"
    by (auto simp: find_None_iff)
  with False show ?thesis by (auto simp: findScoped_def findOne_def)
qed

section \<open>Facts about the sort\<close>

lemma taskLe_total: "taskLe a b \<or> taskLe b a"
  by (auto simp: taskLe_def split: option.splits)

lemma taskLe_trans: "taskLe a b \<Longrightarrow> taskLe b c \<Longrightarrow> taskLe a c"
  by (auto simp: taskLe_def split: option.splits)

lemma set_insertSorted: "set (insertSorted a xs) = insert a (set xs)"
  by (induction xs) auto

lemma mset_insertSorted: "mset (insertSorted a xs) = add_mset a (mset xs)"
  by (induction xs) auto

lemma sorted_insertSorted:
  "sorted_wrt taskLe xs \<Longrightarrow> sorted_wrt taskLe (insertSorted a xs)"
proof (induction xs)
  case Nil
  then show ?case by simp
next
  case (Cons b bs)
  show ?case
  proof (cases "taskLe a b")
    case True
    with Cons.prems show ?thesis by (auto intro: taskLe_trans)
  next
    case False
    with taskLe_total [of a b] have "taskLe b a" by simp
    with False Cons show ?thesis by (auto simp: set_insertSorted)
  qed
qed

lemma sorted_sortTasks: "sorted_wrt taskLe (sortTasks xs)"
  by (induction xs) (auto intro: sorted_insertSorted)

lemma mset_sortTasks: "mset (sortTasks xs) = mset xs"
  by (induction xs) (auto simp: mset_insertSorted)

section \<open>createTask: the parent is not looked up\<close>

lemma findById_append_new:
  "i \<notin> task_id ` set ts \<Longrightarrow> task_id t = i \<Longrightarrow> findById (ts @ [t]) i = Some t"
  by (induction ts) (auto simp: findById_def)

lemma findById_append_None:
  "findById (ts @ [t]) p = None \<longleftrightarrow> p \<notin> task_id ` set ts \<and> p \<noteq> task_id t"
  by (auto simp: findById_def find_None_iff)

lemma createTask_success:
  assumes "fst (createTask creator b newId now d) = Inr t"
  obtains ownerId where "resolveOwner creator b d = Inr ownerId"
    and "newTodo b ownerId newId now = Some t" and "validate t"
    and "newId \<notin> task_id ` set (todos d)"
    and "createTask creator b newId now d = (Inr t, d\<lparr>todos := todos d @ [t]\<rparr>)"
  using assms
  by (auto simp: createTask_def split: sum.splits option.splits if_splits)

lemma resolveOwner_todos:
  "resolveOwner creator b (d\<lparr>todos := ts'\<rparr>) = resolveOwner creator b d"
  by (simp add: resolveOwner_def cong: option.case_cong)

lemma newTodo_task_id: "newTodo b ownerId newId now = Some t \<Longrightarrow> task_id t = newId"
  by (auto simp: newTodo_def dest: assignAll_task_id)

text \<open>
  C4, as the code has it. \<^verbatim>\<open>createTask\<close> never reads the task collection for the
  parent. Take a body of distinct keys whose \<open>parentTask\<close> spells the ObjectId \<open>p\<close>.
  A create that fails answers one of the three errors of the handler and leaves the
  database as it was. A create that succeeds appends to the collection the very
  document it returns: that document has the new id and \<open>parentTask = p\<close>, and reading
  the new id from the collection gives it back, whether or not a task \<open>p\<close> is stored.
  The response, the populated document, shows the parent as \<^verbatim>\<open>null\<close> exactly when
  no task \<open>p\<close> is stored. And the same create succeeds, storing the same document, over
  any collection in which the new id is free, the empty one included.
\<close>

theorem create_parent_not_checked:
  assumes "distinct (map fst b)"
    and "field b ''parentTask'' = Some v" and "castObjectId v = Some p"
  shows "(\<forall>e. fst (createTask creator b newId now d) = Inl e
            \<longrightarrow> e \<in> {InvalidOwner, ValidationError, StoreError}
               \<and> snd (createTask creator b newId now d) = d)
     \<and> (\<forall>t. fst (createTask creator b newId now d) = Inr t
            \<longrightarrow> parentTask t = Some p \<and> task_id t = newId
               \<and> snd (createTask creator b newId now d) = d\<lparr>todos := todos d @ [t]\<rparr>
               \<and> findById (todos (snd (createTask creator b newId now d))) newId = Some t
               \<and> populatedTask (todos (snd (createTask creator b newId now d))) newId
                   = Some (if p \<in> task_id ` set (todos d) \<or> p = newId then t
                           else t\<lparr>parentTask := None\<rparr>)
               \<and> (\<forall>ts'. newId \<notin> task_id ` set ts'
                     \<longrightarrow> createTask creator b newId now (d\<lparr>todos := ts'\<rparr>)
                          = (Inr t, d\<lparr>todos := ts' @ [t]\<rparr>)))"
proof -
  have errs: "e \<in> {InvalidOwner, ValidationError, StoreError}
               \<and> snd (createTask creator b newId now d) = d"
    if "fst (createTask creator b newId now d) = Inl e" for e
    using that
    by (auto simp: createTask_def resolveOwner_def split: sum.splits option.splits if_splits)
  have succ: "parentTask t = Some p \<and> task_id t = newId
               \<and> snd (createTask creator b newId now d) = d\<lparr>todos := todos d @ [t]\<rparr>
               \<and> findById (todos (snd (createTask creator b newId now d))) newId = Some t
               \<and> populatedTask (todos (snd (createTask creator b newId now d))) newId
                   = Some (if p \<in> task_id ` set (todos d) \<or> p = newId then t
                           else t\<lparr>parentTask := None\<rparr>)
               \<and> (\<forall>ts'. newId \<notin> task_id ` set ts'
                     \<longrightarrow> createTask creator b newId now (d\<lparr>todos := ts'\<rparr>)
                          = (Inr t, d\<lparr>todos := ts' @ [t]\<rparr>))"
    if ok: "fst (createTask creator b newId now d) = Inr t" for t
  proof -
    from ok obtain ownerId where ro: "resolveOwner creator b d = Inr ownerId"
      and nt: "newTodo b ownerId newId now = Some t" and va: "validate t"
      and free: "newId \<notin> task_id ` set (todos d)"
      and run: "createTask creator b newId now d = (Inr t, d\<lparr>todos := todos d @ [t]\<rparr>)"
      by (rule createTask_success)
    let ?b = "filter (\<lambda>(k, v). k \<noteq> ''owner'') b"
    from assms(1) have dk: "distinct (map fst ?b)" by (simp add: distinct_map_filter)
    from field_member [OF assms(2)] have m: "(''parentTask'', v) \<in> set ?b" by simp
    from nt have "assign ''parentTask'' v t = Some t"
      unfolding newTodo_def by (rule assignAll_holds [OF dk m])
    with assms(3) have par: "parentTask t = Some p"
      by (cases v) (simp_all add: assign_def update_is_same)
    from nt have id: "task_id t = newId" by (rule newTodo_task_id)
    from run have st: "snd (createTask creator b newId now d) = d\<lparr>todos := todos d @ [t]\<rparr>"
      by simp
    from free id have rd: "findById (todos d @ [t]) newId = Some t"
      by (rule findById_append_new)
    have pop: "populatedTask (todos d @ [t]) newId
        = Some (if p \<in> task_id ` set (todos d) \<or> p = newId then t else t\<lparr>parentTask := None\<rparr>)"
    proof (cases "findById (todos d @ [t]) p")
      case None
      with id have "\<not> (p \<in> task_id ` set (todos d) \<or> p = newId)"
        by (simp add: findById_append_None)
      with None rd par show ?thesis by (simp add: populatedTask_def populateParent_def)
    next
      case (Some parent)
      then have "findById (todos d @ [t]) p \<noteq> None" by simp
      with id have "p \<in> task_id ` set (todos d) \<or> p = newId"
        by (simp add: findById_append_None)
      with Some rd par show ?thesis by (simp add: populatedTask_def populateParent_def)
    qed
    have other: "createTask creator b newId now (d\<lparr>todos := ts'\<rparr>) = (Inr t, d\<lparr>todos := ts' @ [t]\<rparr>)"
      if "newId \<notin> task_id ` set ts'" for ts'
      using that ro nt va by (simp add: createTask_def resolveOwner_todos)
    from par id st rd pop other show ?thesis by simp
  qed
  from errs succ show ?thesis by blast
qed

text \<open>
  A user creates a task under parent 7 in a collection that holds task 5 only: the
  document is stored with \<open>parentTask = 7\<close>, the response shows the parent as
  \<^verbatim>\<open>null\<close>, and the same create succeeds on the empty collection.
\<close>

theorem create_parent_not_checked_witness:
  "distinct (map fst [(''text'', JStr ''Write tests''), (''parentTask'', JId 7)])
   \<and> field [(''text'', JStr ''Write tests''), (''parentTask'', JId 7)] ''parentTask'' = Some (JId 7)
   \<and> castObjectId (JId 7) = Some 7
   \<and> findById [exTask 5 3 None 50] 7 = None
   \<and> createTask \<lparr>user_id = 3, role = User\<rparr>
        [(''text'', JStr ''Write tests''), (''parentTask'', JId 7)] 10 100
        \<lparr>todos = [exTask 5 3 None 50], users = [\<lparr>user_id = 3, role = User\<rparr>]\<rparr>
     = (Inr \<lparr>task_id = 10, text' = ''Write tests'', completed = Some False, owner = 3,
              dueDate = None, tag = None, team = None, parentTask = Some 7,
              createdAt = 100, updatedAt = 100\<rparr>,
        \<lparr>todos = [exTask 5 3 None 50,
                  \<lparr>task_id = 10, text' = ''Write tests'', completed = Some False, owner = 3,
                   dueDate = None, tag = None, team = None, parentTask = Some 7,
                   createdAt = 100, updatedAt = 100\<rparr>],
          users = [\<lparr>user_id = 3, role = User\<rparr>]\<rparr>)
   \<and> populatedTask
        [exTask 5 3 None 50,
         \<lparr>task_id = 10, text' = ''Write tests'', completed = Some False, owner = 3,
          dueDate = None, tag = None, team = None, parentTask = Some 7,
          createdAt = 100, updatedAt = 100\<rparr>] 10
     = Some \<lparr>task_id = 10, text' = ''Write tests'', completed = Some False, owner = 3,
             dueDate = None, tag = None, team = None, parentTask = None,
             createdAt = 100, updatedAt = 100\<rparr>
   \<and> createTask \<lparr>user_id = 3, role = User\<rparr>
        [(''text'', JStr ''Write tests''), (''parentTask'', JId 7)] 10 100
        \<lparr>todos = [], users = [\<lparr>user_id = 3, role = User\<rparr>]\<rparr>
     = (Inr \<lparr>task_id = 10, text' = ''Write tests'', completed = Some False, owner = 3,
              dueDate = None, tag = None, team = None, parentTask = Some 7,
              createdAt = 100, updatedAt = 100\<rparr>,
        \<lparr>todos = [\<lparr>task_id = 10, text' = ''Write tests'', completed = Some False, owner = 3,
                   dueDate = None, tag = None, team = None, parentTask = Some 7,
                   createdAt = 100, updatedAt = 100\<rparr>],
          users = [\<lparr>user_id = 3, role = User\<rparr>]\<rparr>)"
proof -
  let ?u = "\<lparr>user_id = 3, role = User\<rparr>"
  let ?b = "[(''text'', JStr ''Write tests''), (''parentTask'', JId 7)]"
  let ?d = "\<lparr>todos = [exTask 5 3 None 50], users = [?u]\<rparr>"
  let ?t = "\<lparr>task_id = 10, text' = ''Write tests'', completed = Some False, owner = 3,
              dueDate = None, tag = None, team = None, parentTask = Some (7::nat),
              createdAt = 100, updatedAt = 100\<rparr>"
  have dk: "distinct (map fst ?b)" by simp
  have f: "field ?b ''parentTask'' = Some (JId 7)" by (simp add: field_def)
  have c: "castObjectId (JId 7) = Some 7" by simp
  have none: "findById [exTask 5 3 None 50] 7 = None" by (simp add: findById_def exTask_def)
  have run: "createTask ?u ?b 10 100 ?d = (Inr ?t, ?d\<lparr>todos := todos ?d @ [?t]\<rparr>)"
    by (simp add: createTask_def resolveOwner_def newTodo_def assign_def validate_def trim_def
        isSpace_def isAdmin_def exTask_def)
  then have ok: "fst (createTask ?u ?b 10 100 ?d) = Inr ?t" by simp
  from create_parent_not_checked [OF dk f c, of ?u 10 100 ?d] ok
  have pop: "populatedTask (todos (snd (createTask ?u ?b 10 100 ?d))) 10
      = Some (if 7 \<in> task_id ` set (todos ?d) \<or> (7::nat) = 10 then ?t else ?t\<lparr>parentTask := None\<rparr>)"
    and other: "\<forall>ts'. 10 \<notin> task_id ` set ts'
        \<longrightarrow> createTask ?u ?b 10 100 (?d\<lparr>todos := ts'\<rparr>) = (Inr ?t, ?d\<lparr>todos := ts' @ [?t]\<rparr>)"
    by blast+
  from other have empty: "createTask ?u ?b 10 100 (?d\<lparr>todos := []\<rparr>) = (Inr ?t, ?d\<lparr>todos := [] @ [?t]\<rparr>)"
    by simp
  from pop run have pop': "populatedTask [exTask 5 3 None 50, ?t] 10 = Some (?t\<lparr>parentTask := None\<rparr>)"
    by (simp add: exTask_def)
  from dk f c none run pop' empty show ?thesis by simp
qed

text \<open>
  The claim as the specification states it fails: on an empty collection, a task whose
  \<open>parentTask\<close> names task 7 is created and stored.
\<close>

theorem create_dangling_parent_counterexample:
  "findById [] 7 = None
   \<and> createTask \<lparr>user_id = 1, role = User\<rparr>
        [(''text'', JStr ''Write tests''), (''parentTask'', JId 7)] 10 100
        \<lparr>todos = [], users = [\<lparr>user_id = 1, role = User\<rparr>]\<rparr>
     = (Inr \<lparr>task_id = 10, text' = ''Write tests'', completed = Some False, owner = 1,
              dueDate = None, tag = None, team = None, parentTask = Some 7,
              createdAt = 100, updatedAt = 100\<rparr>,
        \<lparr>todos = [\<lparr>task_id = 10, text' = ''Write tests'', completed = Some False, owner = 1,
              dueDate = None, tag = None, team = None, parentTask = Some 7,
              createdAt = 100, updatedAt = 100\<rparr>],
          users = [\<lparr>user_id = 1, role = User\<rparr>]\<rparr>)"
  by (simp add: createTask_def resolveOwner_def newTodo_def assign_def validate_def trim_def
      isSpace_def isAdmin_def field_def findById_def)

section \<open>getTasks: visibility and order\<close>

text \<open>
  C5. A user's list holds exactly the tasks they own, an administrator's list holds
  every task (both as multisets of the stored documents), and the list is ordered by
  \<open>taskLe\<close>: by \<open>parentTask\<close>, a missing one first, then by \<open>createdAt\<close>.
\<close>

theorem list_visibility_and_order:
  "(\<not> isAdmin requester \<longrightarrow>
      mset (getTasks requester d) = mset (filter (\<lambda>t. owner t = user_id requester) (todos d)))
   \<and> (isAdmin requester \<longrightarrow> mset (getTasks requester d) = mset (todos d))
   \<and> sorted_wrt taskLe (getTasks requester d)"
  by (simp add: getTasks_def mset_sortTasks sorted_sortTasks del: mset_filter)

theorem list_visibility_and_order_witness:
  "\<not> isAdmin \<lparr>user_id = 1, role = User\<rparr>
   \<and> isAdmin \<lparr>user_id = 9, role = Admin\<rparr>
   \<and> mset (getTasks \<lparr>user_id = 1, role = User\<rparr>
        \<lparr>todos = [exTask 12 1 (Some 10) 30, exTask 11 2 None 20, exTask 10 1 None 10], users = []\<rparr>)
     = mset (filter (\<lambda>t. owner t = 1) [exTask 12 1 (Some 10) 30, exTask 11 2 None 20, exTask 10 1 None 10])
   \<and> mset (getTasks \<lparr>user_id = 9, role = Admin\<rparr>
        \<lparr>todos = [exTask 12 1 (Some 10) 30, exTask 11 2 None 20, exTask 10 1 None 10], users = []\<rparr>)
     = mset [exTask 12 1 (Some 10) 30, exTask 11 2 None 20, exTask 10 1 None 10]
   \<and> getTasks \<lparr>user_id = 1, role = User\<rparr>
        \<lparr>todos = [exTask 12 1 (Some 10) 30, exTask 11 2 None 20, exTask 10 1 None 10], users = []\<rparr>
     = [exTask 10 1 None 10, exTask 12 1 (Some 10) 30]
   \<and> getTasks \<lparr>user_id = 9, role = Admin\<rparr>
        \<lparr>todos = [exTask 12 1 (Some 10) 30, exTask 11 2 None 20, exTask 10 1 None 10], users = []\<rparr>
     = [exTask 10 1 None 10, exTask 11 2 None 20, exTask 12 1 (Some 10) 30]"
  using list_visibility_and_order [of "\<lparr>user_id = 1, role = User\<rparr>"
      "\<lparr>todos = [exTask 12 1 (Some 10) 30, exTask 11 2 None 20, exTask 10 1 None 10], users = []\<rparr>"]
    list_visibility_and_order [of "\<lparr>user_id = 9, role = Admin\<rparr>"
      "\<lparr>todos = [exTask 12 1 (Some 10) 30, exTask 11 2 None 20, exTask 10 1 None 10], users = []\<rparr>"]
  by (simp add: isAdmin_def getTasks_def taskLe_def exTask_def)

section \<open>createTask: the owner of a user's task\<close>

text \<open>
  C6. Whatever the body says, a task created by a user who is no administrator is owned
  by that user, and it is the document appended to the collection.
\<close>

theorem create_owner_is_creator:
  assumes "\<not> isAdmin creator"
    and "createTask creator b newId now d = (Inr t, d')"
  shows "owner t = user_id creator \<and> todos d' = todos d @ [t]"
proof -
  let ?init = "\<lparr>task_id = newId, text' = [], completed = Some False, owner = user_id creator,
        dueDate = None, tag = None, team = None, parentTask = None,
        createdAt = now, updatedAt = now\<rparr>"
  from assms have nt: "newTodo b (user_id creator) newId now = Some t"
    and d': "d' = d\<lparr>todos := todos d @ [t]\<rparr>"
    by (auto simp: createTask_def resolveOwner_user split: option.splits if_splits)
  have "''owner'' \<notin> fst ` set (filter (\<lambda>(k, v). k \<noteq> ''owner'') b)"
    by auto
  from assignAll_owner [OF this] nt have "owner t = owner ?init"
    unfolding newTodo_def by blast
  with d' show ?thesis by simp
qed

theorem create_owner_is_creator_witness:
  "\<not> isAdmin \<lparr>user_id = 1, role = User\<rparr>
   \<and> createTask \<lparr>user_id = 1, role = User\<rparr> [(''text'', JStr ''Write tests''), (''owner'', JId 2)] 10 100
        \<lparr>todos = [], users = [\<lparr>user_id = 1, role = User\<rparr>, \<lparr>user_id = 2, role = User\<rparr>]\<rparr>
     = (Inr (exTask 10 1 None 100\<lparr>text' := ''Write tests''\<rparr>),
        \<lparr>todos = [exTask 10 1 None 100\<lparr>text' := ''Write tests''\<rparr>],
          users = [\<lparr>user_id = 1, role = User\<rparr>, \<lparr>user_id = 2, role = User\<rparr>]\<rparr>)
   \<and> owner (exTask 10 1 None 100\<lparr>text' := ''Write tests''\<rparr>) = user_id \<lparr>user_id = 1, role = User\<rparr>"
proof -
  have ex: "createTask \<lparr>user_id = 1, role = User\<rparr> [(''text'', JStr ''Write tests''), (''owner'', JId 2)] 10 100
        \<lparr>todos = [], users = [\<lparr>user_id = 1, role = User\<rparr>, \<lparr>user_id = 2, role = User\<rparr>]\<rparr>
     = (Inr (exTask 10 1 None 100\<lparr>text' := ''Write tests''\<rparr>),
        \<lparr>todos = [exTask 10 1 None 100\<lparr>text' := ''Write tests''\<rparr>],
          users = [\<lparr>user_id = 1, role = User\<rparr>, \<lparr>user_id = 2, role = User\<rparr>]\<rparr>)"
    by (simp add: createTask_def resolveOwner_def newTodo_def assign_def validate_def trim_def
        isSpace_def isAdmin_def field_def exTask_def)
  have na: "\<not> isAdmin \<lparr>user_id = 1, role = User\<rparr>" by (simp add: isAdmin_def)
  from create_owner_is_creator [OF na ex] na ex show ?thesis by simp
qed

section \<open>updateTask: the allow-list\<close>

text \<open>
  C7. A body with a key outside the allow-list is refused with \<open>InvalidUpdate\<close>, for
  every requester and id, and the database is returned as it was.
\<close>

theorem disallowed_field_rejected:
  assumes "k \<in> set (map fst b)" and "k \<notin> set allowedUpdates"
  shows "updateTask requester i b now d = Some (Inl InvalidUpdate, d)"
proof -
  from assms have "\<not> list_all (\<lambda>update. update \<in> set allowedUpdates) (map fst b)"
    unfolding list_all_iff by blast
  then show ?thesis by (simp add: updateTask_def)
qed

theorem disallowed_field_rejected_witness:
  "''notAField'' \<in> set (map fst [(''owner'', JId 2), (''notAField'', JNum 1)])
   \<and> ''notAField'' \<notin> set allowedUpdates
   \<and> updateTask \<lparr>user_id = 9, role = Admin\<rparr> 10 [(''owner'', JId 2), (''notAField'', JNum 1)] 200
        \<lparr>todos = [\<lparr>task_id = 10, text' = ''Plan release'', completed = Some False, owner = 1,
              dueDate = None, tag = None, team = None, parentTask = None,
              createdAt = 100, updatedAt = 100\<rparr>], users = []\<rparr>
     = Some (Inl InvalidUpdate,
        \<lparr>todos = [\<lparr>task_id = 10, text' = ''Plan release'', completed = Some False, owner = 1,
              dueDate = None, tag = None, team = None, parentTask = None,
              createdAt = 100, updatedAt = 100\<rparr>], users = []\<rparr>)"
  using disallowed_field_rejected [of "''notAField''" "[(''owner'', JId 2), (''notAField'', JNum 1)]"
      "\<lparr>user_id = 9, role = Admin\<rparr>" 10 200]
  by (simp add: allowedUpdates_def)

section \<open>updateTask: a user cannot change the owner\<close>

lemma assign_updatedAt:
  "assign k v t = Some t \<Longrightarrow> assign k v (t\<lparr>updatedAt := n\<rparr>) = Some (t\<lparr>updatedAt := n\<rparr>)"
  by (auto simp: assign_def update_is_same split: if_splits json.splits)

lemma assign_stamp:
  "assign k v t = Some t \<Longrightarrow> assign k v (stamp n old t) = Some (stamp n old t)"
  by (auto simp: stamp_def assign_updatedAt)

lemma stamp_fields:
  "task_id (stamp n old t) = task_id t"
  "owner (stamp n old t) = owner t"
  "parentTask (stamp n old t) = parentTask t"
  by (simp_all add: stamp_def)

lemma filter_owner_allowed:
  "list_all (\<lambda>update. update \<in> set allowedUpdates) (map fst (filter (\<lambda>(k, v). k \<noteq> ''owner'') b))
     = list_all (\<lambda>update. update \<in> set allowedUpdates) (map fst b)"
  by (induction b) (auto simp: allowedUpdates_def)

lemma filter_owner_field:
  "k \<noteq> ''owner'' \<Longrightarrow> field (filter (\<lambda>(k, v). k \<noteq> ''owner'') b) k = field b k"
  by (induction b) (auto simp: field_def)

lemma filter_owner_applyUpdates:
  "\<not> isAdmin requester \<Longrightarrow>
     applyUpdates requester (filter (\<lambda>(k, v). k \<noteq> ''owner'') b) t = applyUpdates requester b t"
proof -
  assume "\<not> isAdmin requester"
  then have "filter (\<lambda>(k, v). \<not> (k = ''owner'' \<and> \<not> isAdmin requester)) (filter (\<lambda>(k, v). k \<noteq> ''owner'') b)
     = filter (\<lambda>(k, v). \<not> (k = ''owner'' \<and> \<not> isAdmin requester)) b"
    by (induction b) auto
  then show ?thesis by (simp add: applyUpdates_def)
qed

lemma assign_frame:
  assumes "assign k v t = Some t'"
  shows "k \<noteq> ''text'' \<Longrightarrow> text' t' = text' t"
    and "k \<noteq> ''completed'' \<Longrightarrow> completed t' = completed t"
    and "k \<noteq> ''dueDate'' \<Longrightarrow> dueDate t' = dueDate t"
    and "k \<noteq> ''tag'' \<Longrightarrow> tag t' = tag t"
    and "k \<noteq> ''team'' \<Longrightarrow> team t' = team t"
    and "k \<noteq> ''parentTask'' \<Longrightarrow> parentTask t' = parentTask t"
    and "createdAt t' = createdAt t"
  using assms by (auto simp: assign_def split: if_splits json.splits)

lemma assignAll_frame:
  assumes "\<And>k v t t'. k \<noteq> K \<Longrightarrow> assign k v t = Some t' \<Longrightarrow> sel t' = sel t"
    and "K \<notin> fst ` set b" and "assignAll b t = Some t'"
  shows "sel t' = sel t"
  using assms(2,3)
proof (induction b arbitrary: t)
  case Nil
  then show ?case by simp
next
  case (Cons kv b)
  from Cons.prems(2) obtain t1 where a: "assign (fst kv) (snd kv) t = Some t1"
    and r: "assignAll b t1 = Some t'"
    by (rule assignAll_Cons_Some)
  from Cons.prems(1) have k: "fst kv \<noteq> K" and rest: "K \<notin> fst ` set b" by auto
  from assms(1) [OF k a] Cons.IH [OF rest r] show ?case by simp
qed

text \<open>What a document holds when assigning a value to it changes nothing.\<close>

lemma assign_fixed:
  "assign ''text'' (JStr s) t = Some t \<Longrightarrow> text' t = trim s"
  "assign ''completed'' (JBool c) t = Some t \<Longrightarrow> completed t = Some c"
  "assign ''completed'' JNull t = Some t \<Longrightarrow> completed t = None"
  "assign ''dueDate'' (JNum n) t = Some t \<Longrightarrow> dueDate t = Some n"
  "assign ''dueDate'' JNull t = Some t \<Longrightarrow> dueDate t = None"
  "assign ''tag'' (JStr s) t = Some t \<Longrightarrow> tag t = Some (trim s)"
  "assign ''tag'' JNull t = Some t \<Longrightarrow> tag t = None"
  "assign ''parentTask'' JNull t = Some t \<Longrightarrow> parentTask t = None"
  by (simp_all add: assign_def update_is_same)

lemma assign_fixed_parent:
  "castObjectId v = Some p \<Longrightarrow> assign ''parentTask'' v t = Some t \<Longrightarrow> parentTask t = Some p"
  by (cases v) (simp_all add: assign_def update_is_same)

lemma stamp_frame:
  "text' (stamp n old t) = text' t"
  "completed (stamp n old t) = completed t"
  "dueDate (stamp n old t) = dueDate t"
  "tag (stamp n old t) = tag t"
  "team (stamp n old t) = team t"
  "createdAt (stamp n old t) = createdAt t"
  by (simp_all add: stamp_def)

lemma findById_replaceTask_same:
  "task_id t' \<in> task_id ` set ts \<Longrightarrow> findById (replaceTask t' ts) (task_id t') = Some t'"
  by (induction ts) (auto simp: findById_def replaceTask_def)

lemma findById_replaceTask_other:
  "j \<noteq> task_id t' \<Longrightarrow> findById (replaceTask t' ts) j = findById ts j"
  by (induction ts) (auto simp: findById_def replaceTask_def)

lemma absent_after_filter:
  "field b k = None \<Longrightarrow> k \<notin> fst ` set (filter (\<lambda>(k, v). k \<noteq> ''owner'') b)"
  by (auto simp: field_def map_of_eq_None_iff)

text \<open>
  C8. For a requester who is no administrator the \<open>owner\<close> entry of the body has no
  effect at all: the update does what it does on the body without that entry, so the
  entry makes nothing fail. When the update succeeds on a body of distinct keys, the
  task \<open>t'\<close> it returns is the task found with the body written into it: the owner is
  the requester, as it was; \<open>text\<close> and \<open>tag\<close> hold the submitted string, trimmed,
  \<open>completed\<close>, \<open>dueDate\<close> and \<open>parentTask\<close> the submitted value, a submitted
  \<^verbatim>\<open>null\<close> clears the field, and a field that is not in the body is as it was, like
  the id, the team and the creation time. The database returned holds \<open>t'\<close> in the place
  of the task found and every other task as before.
\<close>

theorem user_owner_change_dropped:
  assumes "\<not> isAdmin requester"
  shows "updateTask requester i b now d
           = updateTask requester i (filter (\<lambda>(k, v). k \<noteq> ''owner'') b) now d
     \<and> (\<forall>t' d'. distinct (map fst b) \<and> updateTask requester i b now d = Some (Inr t', d') \<longrightarrow>
           (\<exists>t. findScoped requester (todos d) i = Some t \<and> owner t' = owner t
               \<and> task_id t' = task_id t \<and> team t' = team t \<and> createdAt t' = createdAt t
               \<and> (field b ''text'' = None \<longrightarrow> text' t' = text' t)
               \<and> (field b ''completed'' = None \<longrightarrow> completed t' = completed t)
               \<and> (field b ''dueDate'' = None \<longrightarrow> dueDate t' = dueDate t)
               \<and> (field b ''tag'' = None \<longrightarrow> tag t' = tag t)
               \<and> (field b ''parentTask'' = None \<longrightarrow> parentTask t' = parentTask t))
           \<and> owner t' = user_id requester
           \<and> (\<forall>s. field b ''text'' = Some (JStr s) \<longrightarrow> text' t' = trim s)
           \<and> (\<forall>c. field b ''completed'' = Some (JBool c) \<longrightarrow> completed t' = Some c)
           \<and> (field b ''completed'' = Some JNull \<longrightarrow> completed t' = None)
           \<and> (\<forall>n. field b ''dueDate'' = Some (JNum n) \<longrightarrow> dueDate t' = Some n)
           \<and> (field b ''dueDate'' = Some JNull \<longrightarrow> dueDate t' = None)
           \<and> (\<forall>s. field b ''tag'' = Some (JStr s) \<longrightarrow> tag t' = Some (trim s))
           \<and> (field b ''tag'' = Some JNull \<longrightarrow> tag t' = None)
           \<and> (\<forall>v p. field b ''parentTask'' = Some v \<and> castObjectId v = Some p
                 \<longrightarrow> parentTask t' = Some p)
           \<and> (field b ''parentTask'' = Some JNull \<longrightarrow> parentTask t' = None)
           \<and> (\<forall>k v. (k, v) \<in> set b \<and> k \<noteq> ''owner'' \<longrightarrow> assign k v t' = Some t')
           \<and> d' = d\<lparr>todos := replaceTask t' (todos d)\<rparr>
           \<and> findById (todos d') i = Some t'
           \<and> (\<forall>j. j \<noteq> i \<longrightarrow> findById (todos d') j = findById (todos d) j))"
proof -
  let ?b = "filter (\<lambda>(k, v). k \<noteq> ''owner'') b"
  have sv: "saveUpdates requester ?b now d t = saveUpdates requester b now d t" for t
    using assms by (simp add: saveUpdates_def filter_owner_applyUpdates)
  have same: "updateTask requester i b now d = updateTask requester i ?b now d"
    by (simp add: updateTask_def filter_owner_allowed filter_owner_field sv
        cong: option.case_cong sum.case_cong)
  have rest: "(\<exists>t. findScoped requester (todos d) i = Some t \<and> owner t' = owner t
               \<and> task_id t' = task_id t \<and> team t' = team t \<and> createdAt t' = createdAt t
               \<and> (field b ''text'' = None \<longrightarrow> text' t' = text' t)
               \<and> (field b ''completed'' = None \<longrightarrow> completed t' = completed t)
               \<and> (field b ''dueDate'' = None \<longrightarrow> dueDate t' = dueDate t)
               \<and> (field b ''tag'' = None \<longrightarrow> tag t' = tag t)
               \<and> (field b ''parentTask'' = None \<longrightarrow> parentTask t' = parentTask t))
           \<and> owner t' = user_id requester
           \<and> (\<forall>s. field b ''text'' = Some (JStr s) \<longrightarrow> text' t' = trim s)
           \<and> (\<forall>c. field b ''completed'' = Some (JBool c) \<longrightarrow> completed t' = Some c)
           \<and> (field b ''completed'' = Some JNull \<longrightarrow> completed t' = None)
           \<and> (\<forall>n. field b ''dueDate'' = Some (JNum n) \<longrightarrow> dueDate t' = Some n)
           \<and> (field b ''dueDate'' = Some JNull \<longrightarrow> dueDate t' = None)
           \<and> (\<forall>s. field b ''tag'' = Some (JStr s) \<longrightarrow> tag t' = Some (trim s))
           \<and> (field b ''tag'' = Some JNull \<longrightarrow> tag t' = None)
           \<and> (\<forall>v p. field b ''parentTask'' = Some v \<and> castObjectId v = Some p
                 \<longrightarrow> parentTask t' = Some p)
           \<and> (field b ''parentTask'' = Some JNull \<longrightarrow> parentTask t' = None)
           \<and> (\<forall>k v. (k, v) \<in> set b \<and> k \<noteq> ''owner'' \<longrightarrow> assign k v t' = Some t')
           \<and> d' = d\<lparr>todos := replaceTask t' (todos d)\<rparr>
           \<and> findById (todos d') i = Some t'
           \<and> (\<forall>j. j \<noteq> i \<longrightarrow> findById (todos d') j = findById (todos d) j)"
    if dist: "distinct (map fst b)" and ok: "updateTask requester i b now d = Some (Inr t', d')"
    for t' d'
  proof -
    from ok have al: "list_all (\<lambda>update. update \<in> set allowedUpdates) (map fst b)"
      by (auto simp: updateTask_def split: if_splits)
    then have noteam: "''team'' \<notin> fst ` set ?b"
      by (auto simp: list_all_iff allowedUpdates_def)
    from ok obtain t where f: "findScoped requester (todos d) i = Some t"
      and s: "saveUpdates requester b now d t = (Inr t', d')"
      by (auto simp: updateTask_def split: if_splits option.splits sum.splits
          elim!: bind_eq_Some_conv [THEN iffD1, elim_format])
    from assms have fb: "filter (\<lambda>(k, v). \<not> (k = ''owner'' \<and> \<not> isAdmin requester)) b = ?b"
      by (induction b) auto
    from s fb obtain t1 where a: "assignAll ?b t = Some t1" and t': "t' = stamp now t t1"
      and d': "d' = d\<lparr>todos := replaceTask t' (todos d)\<rparr>"
      by (auto simp: saveUpdates_def applyUpdates_def split: option.splits if_splits)
    from findScoped_Some [OF f] assms have tin: "t \<in> set (todos d)" and tid: "task_id t = i"
      and town: "owner t = user_id requester" by simp_all
    have "''owner'' \<notin> fst ` set ?b" by auto
    from assignAll_owner [OF this a] t' have o: "owner t' = owner t" by (simp add: stamp_fields)
    from assignAll_task_id [OF a] t' have id: "task_id t' = task_id t" by (simp add: stamp_fields)
    have "team t1 = team t"
      by (rule assignAll_frame [OF _ noteam a]) (rule assign_frame(5))
    with t' have tm: "team t' = team t" by (simp add: stamp_frame)
    have "createdAt t1 = createdAt t"
      by (rule assignAll_frame [OF _ noteam a]) (rule assign_frame(7))
    with t' have cr: "createdAt t' = createdAt t" by (simp add: stamp_frame)
    have n1: "text' t' = text' t" if "field b ''text'' = None"
    proof -
      from that have nk: "''text'' \<notin> fst ` set ?b" by (rule absent_after_filter)
      have "text' t1 = text' t"
        by (rule assignAll_frame [OF _ nk a]) (rule assign_frame(1))
      with t' show ?thesis by (simp add: stamp_frame)
    qed
    have n2: "completed t' = completed t" if "field b ''completed'' = None"
    proof -
      from that have nk: "''completed'' \<notin> fst ` set ?b" by (rule absent_after_filter)
      have "completed t1 = completed t"
        by (rule assignAll_frame [OF _ nk a]) (rule assign_frame(2))
      with t' show ?thesis by (simp add: stamp_frame)
    qed
    have n3: "dueDate t' = dueDate t" if "field b ''dueDate'' = None"
    proof -
      from that have nk: "''dueDate'' \<notin> fst ` set ?b" by (rule absent_after_filter)
      have "dueDate t1 = dueDate t"
        by (rule assignAll_frame [OF _ nk a]) (rule assign_frame(3))
      with t' show ?thesis by (simp add: stamp_frame)
    qed
    have n4: "tag t' = tag t" if "field b ''tag'' = None"
    proof -
      from that have nk: "''tag'' \<notin> fst ` set ?b" by (rule absent_after_filter)
      have "tag t1 = tag t"
        by (rule assignAll_frame [OF _ nk a]) (rule assign_frame(4))
      with t' show ?thesis by (simp add: stamp_frame)
    qed
    have n5: "parentTask t' = parentTask t" if "field b ''parentTask'' = None"
    proof -
      from that have nk: "''parentTask'' \<notin> fst ` set ?b" by (rule absent_after_filter)
      have "parentTask t1 = parentTask t"
        by (rule assignAll_frame [OF _ nk a]) (rule assign_frame(6))
      with t' show ?thesis by (simp add: stamp_fields)
    qed
    from dist have dk: "distinct (map fst ?b)" by (simp add: distinct_map_filter)
    have held1: "assign k v t1 = Some t1" if "(k, v) \<in> set b" and "k \<noteq> ''owner''" for k v
    proof -
      from that have "(k, v) \<in> set ?b" by simp
      from assignAll_holds [OF dk this a] show ?thesis .
    qed
    have held: "assign k v t' = Some t'" if "(k, v) \<in> set b" and "k \<noteq> ''owner''" for k v
      unfolding t' using held1 [OF that] by (rule assign_stamp)
    have got: "assign k v t1 = Some t1" if "field b k = Some v" and "k \<noteq> ''owner''" for k v
      using field_member [OF that(1)] that(2) by (rule held1)
    have p1: "text' t' = trim s" if "field b ''text'' = Some (JStr s)" for s
      using assign_fixed(1) [OF got [OF that]] t' by (simp add: stamp_frame)
    have p2: "completed t' = Some c" if "field b ''completed'' = Some (JBool c)" for c
      using assign_fixed(2) [OF got [OF that]] t' by (simp add: stamp_frame)
    have p3: "completed t' = None" if "field b ''completed'' = Some JNull"
      using assign_fixed(3) [OF got [OF that]] t' by (simp add: stamp_frame)
    have p4: "dueDate t' = Some n" if "field b ''dueDate'' = Some (JNum n)" for n
      using assign_fixed(4) [OF got [OF that]] t' by (simp add: stamp_frame)
    have p5: "dueDate t' = None" if "field b ''dueDate'' = Some JNull"
      using assign_fixed(5) [OF got [OF that]] t' by (simp add: stamp_frame)
    have p6: "tag t' = Some (trim s)" if "field b ''tag'' = Some (JStr s)" for s
      using assign_fixed(6) [OF got [OF that]] t' by (simp add: stamp_frame)
    have p7: "tag t' = None" if "field b ''tag'' = Some JNull"
      using assign_fixed(7) [OF got [OF that]] t' by (simp add: stamp_frame)
    have p8: "parentTask t' = Some p"
      if "field b ''parentTask'' = Some v" and "castObjectId v = Some p" for v p
      using assign_fixed_parent [OF that(2) got [OF that(1)]] t' by (simp add: stamp_fields)
    have p9: "parentTask t' = None" if "field b ''parentTask'' = Some JNull"
      using assign_fixed(8) [OF got [OF that]] t' by (simp add: stamp_fields)
    from tin tid id have "task_id t' \<in> task_id ` set (todos d)" by force
    from findById_replaceTask_same [OF this] d' id tid
    have st: "findById (todos d') i = Some t'" by simp
    have oth: "findById (todos d') j = findById (todos d) j" if "j \<noteq> i" for j
      using that d' id tid by (simp add: findById_replaceTask_other)
    have found: "\<exists>t. findScoped requester (todos d) i = Some t \<and> owner t' = owner t
               \<and> task_id t' = task_id t \<and> team t' = team t \<and> createdAt t' = createdAt t
               \<and> (field b ''text'' = None \<longrightarrow> text' t' = text' t)
               \<and> (field b ''completed'' = None \<longrightarrow> completed t' = completed t)
               \<and> (field b ''dueDate'' = None \<longrightarrow> dueDate t' = dueDate t)
               \<and> (field b ''tag'' = None \<longrightarrow> tag t' = tag t)
               \<and> (field b ''parentTask'' = None \<longrightarrow> parentTask t' = parentTask t)"
      using f o id tm cr n1 n2 n3 n4 n5 by (intro exI [of _ t]) simp
    from o town have ou: "owner t' = user_id requester" by simp
    have c1: "\<forall>s. field b ''text'' = Some (JStr s) \<longrightarrow> text' t' = trim s"
      by (intro allI impI) (rule p1)
    have c2: "\<forall>c. field b ''completed'' = Some (JBool c) \<longrightarrow> completed t' = Some c"
      by (intro allI impI) (rule p2)
    have c3: "field b ''completed'' = Some JNull \<longrightarrow> completed t' = None"
      by (intro impI) (rule p3)
    have c4: "\<forall>n. field b ''dueDate'' = Some (JNum n) \<longrightarrow> dueDate t' = Some n"
      by (intro allI impI) (rule p4)
    have c5: "field b ''dueDate'' = Some JNull \<longrightarrow> dueDate t' = None"
      by (intro impI) (rule p5)
    have c6: "\<forall>s. field b ''tag'' = Some (JStr s) \<longrightarrow> tag t' = Some (trim s)"
      by (intro allI impI) (rule p6)
    have c7: "field b ''tag'' = Some JNull \<longrightarrow> tag t' = None"
      by (intro impI) (rule p7)
    have c8: "\<forall>v p. field b ''parentTask'' = Some v \<and> castObjectId v = Some p
                 \<longrightarrow> parentTask t' = Some p"
      by (intro allI impI, elim conjE) (rule p8)
    have c9: "field b ''parentTask'' = Some JNull \<longrightarrow> parentTask t' = None"
      by (intro impI) (rule p9)
    have c10: "\<forall>k v. (k, v) \<in> set b \<and> k \<noteq> ''owner'' \<longrightarrow> assign k v t' = Some t'"
      by (intro allI impI, elim conjE) (rule held)
    have c11: "\<forall>j. j \<noteq> i \<longrightarrow> findById (todos d') j = findById (todos d) j"
      by (intro allI impI) (rule oth)
    from found ou c1 c2 c3 c4 c5 c6 c7 c8 c9 c10 d' st c11 show ?thesis
      by (intro conjI)
  qed
  show ?thesis
  proof (rule conjI [OF same], intro allI impI, elim conjE, goal_cases)
    case (1 t' d')
    from rest [OF 1(1) 1(2)] show ?case .
  qed
qed

text \<open>
  User 3 owns tasks 10 and 11; task 12 is user 4's. User 3 submits, for task 11, a new
  owner together with a text, a completion flag, a due date, a tag and parent 10. The
  update answers as it does without the owner entry: task 11 is saved with every
  other field written and its owner still 3; tasks 10 and 12 stay as they were.
\<close>

theorem user_owner_change_dropped_witness:
  "\<not> isAdmin \<lparr>user_id = 3, role = User\<rparr>
   \<and> distinct (map fst [(''owner'', JId 4), (''text'', JStr '' Ship it ''),
                        (''completed'', JBool True), (''dueDate'', JNum 500),
                        (''tag'', JStr ''qa''), (''parentTask'', JId 10)])
   \<and> updateTask \<lparr>user_id = 3, role = User\<rparr> 11
        [(''owner'', JId 4), (''text'', JStr '' Ship it ''), (''completed'', JBool True),
         (''dueDate'', JNum 500), (''tag'', JStr ''qa''), (''parentTask'', JId 10)] 200
        \<lparr>todos = [exTask 10 3 None 100, exTask 11 3 None 101, exTask 12 4 None 102], users = []\<rparr>
     = Some (Inr \<lparr>task_id = 11, text' = ''Ship it'', completed = Some True, owner = 3,
                  dueDate = Some 500, tag = Some ''qa'', team = None, parentTask = Some 10,
                  createdAt = 101, updatedAt = 200\<rparr>,
        \<lparr>todos = [exTask 10 3 None 100,
                  \<lparr>task_id = 11, text' = ''Ship it'', completed = Some True, owner = 3,
                   dueDate = Some 500, tag = Some ''qa'', team = None, parentTask = Some 10,
                   createdAt = 101, updatedAt = 200\<rparr>,
                  exTask 12 4 None 102],
          users = []\<rparr>)
   \<and> updateTask \<lparr>user_id = 3, role = User\<rparr> 11
        [(''text'', JStr '' Ship it ''), (''completed'', JBool True),
         (''dueDate'', JNum 500), (''tag'', JStr ''qa''), (''parentTask'', JId 10)] 200
        \<lparr>todos = [exTask 10 3 None 100, exTask 11 3 None 101, exTask 12 4 None 102], users = []\<rparr>
     = Some (Inr \<lparr>task_id = 11, text' = ''Ship it'', completed = Some True, owner = 3,
                  dueDate = Some 500, tag = Some ''qa'', team = None, parentTask = Some 10,
                  createdAt = 101, updatedAt = 200\<rparr>,
        \<lparr>todos = [exTask 10 3 None 100,
                  \<lparr>task_id = 11, text' = ''Ship it'', completed = Some True, owner = 3,
                   dueDate = Some 500, tag = Some ''qa'', team = None, parentTask = Some 10,
                   createdAt = 101, updatedAt = 200\<rparr>,
                  exTask 12 4 None 102],
          users = []\<rparr>)"
proof -
  let ?u = "\<lparr>user_id = 3, role = User\<rparr>"
  let ?rest = "[(''text'', JStr '' Ship it ''), (''completed'', JBool True),
         (''dueDate'', JNum 500), (''tag'', JStr ''qa''), (''parentTask'', JId 10)]"
  let ?d = "\<lparr>todos = [exTask 10 3 None 100, exTask 11 3 None 101, exTask 12 4 None 102], users = []\<rparr>"
  let ?t = "\<lparr>task_id = 11, text' = ''Ship it'', completed = Some True, owner = 3,
                  dueDate = Some 500, tag = Some ''qa'', team = None, parentTask = Some 10,
                  createdAt = 101, updatedAt = 200\<rparr>"
  have na: "\<not> isAdmin ?u" by (simp add: isAdmin_def)
  have dk: "distinct (map fst ((''owner'', JId 4) # ?rest))" by simp
  have walk: "cycleWalk (todos ?d) 11 (findById (todos ?d) 10) = Some False"
    apply (simp add: findById_def exTask_def)
    apply (subst cycleWalk.simps, simp)
    apply (subst cycleWalk.simps, simp)
    done
  have pc: "parentChecks (todos ?d) (Some (JId 10)) (exTask 11 3 None 101) = Some (Inr ())"
    using walk by (simp add: parentChecks_def exTask_def)
  have fs: "findScoped ?u (todos ?d) 11 = Some (exTask 11 3 None 101)"
    by (simp add: findScoped_def findOne_def isAdmin_def exTask_def)
  have su: "saveUpdates ?u ?rest 200 ?d (exTask 11 3 None 101)
      = (Inr ?t, \<lparr>todos = [exTask 10 3 None 100, ?t, exTask 12 4 None 102], users = []\<rparr>)"
    by (simp add: saveUpdates_def stamp_def applyUpdates_def assign_def validate_def
        replaceTask_def trim_def isSpace_def exTask_def isAdmin_def)
  have ex: "updateTask ?u 11 ?rest 200 ?d
      = Some (Inr ?t, \<lparr>todos = [exTask 10 3 None 100, ?t, exTask 12 4 None 102], users = []\<rparr>)"
    using fs pc su by (simp add: updateTask_def allowedUpdates_def field_def)
  from user_owner_change_dropped [OF na, of 11 "(''owner'', JId 4) # ?rest" 200 ?d]
  have "updateTask ?u 11 ((''owner'', JId 4) # ?rest) 200 ?d = updateTask ?u 11 ?rest 200 ?d"
    by simp
  with ex have ex': "updateTask ?u 11 ((''owner'', JId 4) # ?rest) 200 ?d
      = Some (Inr ?t, \<lparr>todos = [exTask 10 3 None 100, ?t, exTask 12 4 None 102], users = []\<rparr>)"
    by simp
  from na dk ex ex' show ?thesis by simp
qed

section \<open>updateTask: a task is not its own parent\<close>

text \<open>
  Line 182 for the id as the store prints it: for a task within the requester's scope,
  an update whose \<open>parentTask\<close> is that string is refused with \<open>SelfParentError\<close> and the
  database is returned as it was.
\<close>

lemma self_parent_rejected:
  assumes "t \<in> set (todos d)"
    and "isAdmin requester \<or> owner t = user_id requester"
    and "field b ''parentTask'' = Some (JId (task_id t))"
    and "list_all (\<lambda>update. update \<in> set allowedUpdates) (map fst b)"
  shows "updateTask requester (task_id t) b now d = Some (Inl SelfParentError, d)"
proof -
  from findScoped_found [OF assms(1,2)] obtain t' where
    f: "findScoped requester (todos d) (task_id t) = Some t'" by blast
  from findScoped_Some [OF f] have i: "task_id t' = task_id t" by simp
  from assms(3) i have "parentChecks (todos d) (field b ''parentTask'') t' = Some (Inl SelfParentError)"
    by (simp add: parentChecks_def)
  with f assms(4) show ?thesis
    by (simp add: updateTask_def)
qed

text \<open>
  The same id spelled with a letter in upper case: the comparison of line 182 is between
  strings and fails, the query of line 190 casts the string and finds the task itself,
  and the walk meets the edited task at once. The update is refused, with the error
  of line 193, and the database is returned as it was.
\<close>

lemma self_parent_other_spelling:
  assumes "t \<in> set (todos d)"
    and "isAdmin requester \<or> owner t = user_id requester"
    and "field b ''parentTask'' = Some (JIdAlt (task_id t))"
    and "list_all (\<lambda>update. update \<in> set allowedUpdates) (map fst b)"
  shows "updateTask requester (task_id t) b now d = Some (Inl CycleError, d)"
proof -
  from findScoped_found [OF assms(1,2)] obtain t' where
    f: "findScoped requester (todos d) (task_id t) = Some t'" by blast
  from findScoped_Some [OF f] have i: "task_id t' = task_id t" by simp
  from assms(1) have "findById (todos d) (task_id t) \<noteq> None"
    by (auto simp: findById_def find_None_iff)
  then obtain c where c: "findById (todos d) (task_id t) = Some c" by blast
  then have "task_id c = task_id t" by (auto simp: findById_def find_Some_iff)
  with c i have "cycleWalk (todos d) (task_id t') (findById (todos d) (task_id t)) = Some True"
    by (subst cycleWalk.simps) simp
  with assms(3) have "parentChecks (todos d) (field b ''parentTask'') t' = Some (Inl CycleError)"
    by (simp add: parentChecks_def)
  with f assms(4) show ?thesis
    by (simp add: updateTask_def)
qed

text \<open>
  C9 fails for an id that is not spelled as the store prints it. User 3 owns task 10.
  With \<open>parentTask\<close> the id of task 10 in lower case the update answers
  \<open>SelfParentError\<close>; with the same id in upper case it answers \<open>CycleError\<close>. The
  database is unchanged both times.
\<close>

theorem self_parent_other_case_answers_cycle:
  "updateTask \<lparr>user_id = 3, role = User\<rparr> 10 [(''parentTask'', JId 10)] 200
        \<lparr>todos = [exTask 10 3 None 100], users = []\<rparr>
     = Some (Inl SelfParentError, \<lparr>todos = [exTask 10 3 None 100], users = []\<rparr>)
   \<and> updateTask \<lparr>user_id = 3, role = User\<rparr> 10 [(''parentTask'', JIdAlt 10)] 200
        \<lparr>todos = [exTask 10 3 None 100], users = []\<rparr>
     = Some (Inl CycleError, \<lparr>todos = [exTask 10 3 None 100], users = []\<rparr>)"
proof -
  let ?u = "\<lparr>user_id = 3, role = User\<rparr>"
  let ?d = "\<lparr>todos = [exTask 10 3 None 100], users = []\<rparr>"
  have m: "exTask 10 3 None 100 \<in> set (todos ?d)" by simp
  have o: "isAdmin ?u \<or> owner (exTask 10 3 None 100) = user_id ?u" by (simp add: exTask_def)
  have i: "task_id (exTask 10 3 None 100) = 10" by (simp add: exTask_def)
  have "updateTask ?u (task_id (exTask 10 3 None 100)) [(''parentTask'', JId 10)] 200 ?d
      = Some (Inl SelfParentError, ?d)"
    by (rule self_parent_rejected [OF m o]) (simp_all add: field_def allowedUpdates_def i)
  moreover have "updateTask ?u (task_id (exTask 10 3 None 100)) [(''parentTask'', JIdAlt 10)] 200 ?d
      = Some (Inl CycleError, ?d)"
    by (rule self_parent_other_spelling [OF m o]) (simp_all add: field_def allowedUpdates_def i)
  ultimately show ?thesis unfolding i by simp
qed

section \<open>updateTask: a falsy parent skips the checks\<close>



section \<open>Facts about the parent relation and the walk\<close>

lemma edgesOf_iff:
  "(x, y) \<in> set (edgesOf m ts) \<longleftrightarrow> (\<exists>c\<in>set ts. task_id c = x \<and> parentTask c = Some y \<and> m c)"
proof
  assume "(x, y) \<in> set (edgesOf m ts)"
  then show "\<exists>c\<in>set ts. task_id c = x \<and> parentTask c = Some y \<and> m c"
    by (auto simp: edgesOf_def split: option.splits if_splits)
next
  assume "\<exists>c\<in>set ts. task_id c = x \<and> parentTask c = Some y \<and> m c"
  then obtain c where "c \<in> set ts" "task_id c = x" "parentTask c = Some y" "m c" by blast
  then have "(x, y) \<in> set (case parentTask c of None \<Rightarrow> []
                                | Some p \<Rightarrow> if m c then [(task_id c, p)] else [])"
    by simp
  with \<open>c \<in> set ts\<close> show "(x, y) \<in> set (edgesOf m ts)"
    unfolding edgesOf_def set_concat by (intro UN_I [where a = "case parentTask c of None \<Rightarrow> []
                                | Some p \<Rightarrow> if m c then [(task_id c, p)] else []"]) auto
qed

lemma parent_rel_iff:
  "(x, y) \<in> parent_rel ts \<longleftrightarrow> (\<exists>c\<in>set ts. task_id c = x \<and> parentTask c = Some y)"
  by (simp add: parent_rel_def edgesOf_iff)

lemma finite_parent_rel: "finite (parent_rel ts)"
  by (simp add: parent_rel_def)

lemma acyclic_empty_rel: "acyclic {}"
  by (simp add: acyclic_def)

lemma findById_Some: "findById ts x = Some c \<Longrightarrow> c \<in> set ts \<and> task_id c = x"
  by (auto simp: findById_def find_Some_iff)

lemma findById_None: "findById ts x = None \<longleftrightarrow> x \<notin> task_id ` set ts"
  by (auto simp: findById_def find_None_iff)

lemma findById_distinct:
  "distinct (map task_id ts) \<Longrightarrow> c \<in> set ts \<Longrightarrow> findById ts (task_id c) = Some c"
proof (induction ts)
  case Nil
  then show ?case by simp
next
  case (Cons a ts)
  then show ?case by (auto simp: findById_def)
qed

text \<open>On a forest the walk returns, from whatever task it starts.\<close>

lemma cycleWalk_returns:
  assumes "acyclic (parent_rel ts)"
  shows "\<exists>r. cycleWalk ts e (findById ts x) = Some r"
proof -
  from finite_parent_rel assms have "wf ((parent_rel ts)\<inverse>)"
    by (rule finite_acyclic_wf_converse)
  then show ?thesis
  proof (induction x rule: wf_induct_rule)
    case (less x)
    show ?case
    proof (cases "findById ts x")
      case None
      then show ?thesis by (subst cycleWalk.simps) auto
    next
      case (Some c)
      from findById_Some [OF Some] have c: "c \<in> set ts" "task_id c = x" by simp_all
      show ?thesis
      proof (cases "task_id c = e")
        case True
        with Some show ?thesis by (subst cycleWalk.simps) auto
      next
        case False
        show ?thesis
        proof (cases "parentTask c")
          case None
          have "cycleWalk ts e None = Some False" by (subst cycleWalk.simps) simp
          with \<open>findById ts x = Some c\<close> False None show ?thesis
            by (subst cycleWalk.simps) auto
        next
          case (Some p)
          with c have "(x, p) \<in> parent_rel ts" by (auto simp: parent_rel_iff)
          then have "\<exists>r. cycleWalk ts e (findById ts p) = Some r"
            by (intro less.IH) simp
          with \<open>findById ts x = Some c\<close> False Some show ?thesis
            by (subst cycleWalk.simps) auto
        qed
      qed
    qed
  qed
qed

text \<open>
  The walk never returns from inside a set of ids that is closed under taking the
  parent, all of whose tasks are stored, and that does not hold the edited task.
\<close>

lemma cycleWalk_diverges:
  assumes "e \<notin> S"
    and "\<forall>x\<in>S. \<exists>c q. findById ts x = Some c \<and> parentTask c = Some q \<and> q \<in> S"
    and "x \<in> S"
  shows "cycleWalk ts e (findById ts x) = None"
proof -
  let ?P = "\<lambda>ts' e' cur (y::bool). \<not> (ts' = ts \<and> e' = e \<and> (\<exists>x\<in>S. cur = findById ts x))"
  have "?P ts' e' cur y" if w: "cycleWalk ts' e' cur = Some y" for ts' e' cur y
  proof (rule cycleWalk.raw_induct [where P = ?P, OF _ w])
    fix walk and ts' :: "task list" and e' :: oid and cur :: "task option" and y :: bool
    assume IH: "\<And>ts' e' cur y. walk ts' e' cur = Some y \<Longrightarrow> ?P ts' e' cur y"
      and eq: "(case cur of None \<Rightarrow> Some False
                | Some c \<Rightarrow> if task_id c = e' then Some True
                    else walk ts' e' (case parentTask c of None \<Rightarrow> None
                                     | Some p \<Rightarrow> findById ts' p)) = Some y"
    show "?P ts' e' cur y"
    proof
      assume a: "ts' = ts \<and> e' = e \<and> (\<exists>x\<in>S. cur = findById ts x)"
      then obtain x where x: "x \<in> S" "cur = findById ts x" by blast
      with assms(2) obtain c q where c: "findById ts x = Some c" "parentTask c = Some q" "q \<in> S"
        by blast
      from findById_Some [OF c(1)] x(1) assms(1) have "task_id c \<noteq> e" by auto
      with eq a x c have "walk ts e (findById ts q) = Some y" by simp
      from IH [OF this] c(3) show False by blast
    qed
  qed
  then have "cycleWalk ts e (findById ts x) \<noteq> Some y" for y
    using assms(3) by blast
  then show ?thesis by (cases "cycleWalk ts e (findById ts x)") auto
qed

text \<open>The walk answers that it met the edited task only if the task is an ancestor.\<close>

lemma cycleWalk_True_reaches:
  assumes "cycleWalk ts e (findById ts x) = Some True"
  shows "(x, e) \<in> (parent_rel ts)\<^sup>*"
proof -
  let ?P = "\<lambda>ts' e' cur y.
     y \<longrightarrow> (\<exists>c. cur = Some c \<and> (c \<in> set ts' \<longrightarrow> (task_id c, e') \<in> (parent_rel ts')\<^sup>*))"
  have "?P ts' e' cur y" if w: "cycleWalk ts' e' cur = Some y" for ts' e' cur y
  proof (rule cycleWalk.raw_induct [where P = ?P, OF _ w])
    fix walk and ts' :: "task list" and e' :: oid and cur :: "task option" and y :: bool
    assume IH: "\<And>ts' e' cur y. walk ts' e' cur = Some y \<Longrightarrow> ?P ts' e' cur y"
      and eq: "(case cur of None \<Rightarrow> Some False
                | Some c \<Rightarrow> if task_id c = e' then Some True
                    else walk ts' e' (case parentTask c of None \<Rightarrow> None
                                     | Some p \<Rightarrow> findById ts' p)) = Some y"
    show "?P ts' e' cur y"
    proof (cases cur)
      case None
      with eq show ?thesis by auto
    next
      case (Some c)
      show ?thesis
      proof (cases "task_id c = e'")
        case True
        with Some show ?thesis by simp
      next
        case False
        let ?next = "case parentTask c of None \<Rightarrow> None | Some p \<Rightarrow> findById ts' p"
        from eq Some False have w': "walk ts' e' ?next = Some y" by simp
        show ?thesis
        proof
          assume y
          with IH [OF w'] obtain c2 where c2: "?next = Some c2"
            and r: "c2 \<in> set ts' \<longrightarrow> (task_id c2, e') \<in> (parent_rel ts')\<^sup>*" by blast
          from c2 obtain p where p: "parentTask c = Some p" "findById ts' p = Some c2"
            by (auto split: option.splits)
          from findById_Some [OF p(2)] r have pe: "(p, e') \<in> (parent_rel ts')\<^sup>*" by simp
          have "c \<in> set ts' \<longrightarrow> (task_id c, e') \<in> (parent_rel ts')\<^sup>*"
          proof
            assume "c \<in> set ts'"
            with p(1) have "(task_id c, p) \<in> parent_rel ts'" by (auto simp: parent_rel_iff)
            then show "(task_id c, e') \<in> (parent_rel ts')\<^sup>*"
              using pe by (rule converse_rtrancl_into_rtrancl)
          qed
          with Some show "\<exists>c. cur = Some c \<and> (c \<in> set ts' \<longrightarrow> (task_id c, e') \<in> (parent_rel ts')\<^sup>*)"
            by simp
        qed
      qed
    qed
  qed
  from this [OF assms] obtain c where "findById ts x = Some c"
    and "c \<in> set ts \<longrightarrow> (task_id c, e) \<in> (parent_rel ts)\<^sup>*" by blast
  with findById_Some [of ts x c] show ?thesis by simp
qed

text \<open>With unique ids, the walk from a descendant of the edited task meets it.\<close>

lemma cycleWalk_reaches_True:
  assumes "distinct (map task_id ts)" and "e \<in> task_id ` set ts"
    and "(x, e) \<in> (parent_rel ts)\<^sup>*"
  shows "cycleWalk ts e (findById ts x) = Some True"
  using assms(3)
proof (induction rule: converse_rtrancl_induct)
  case base
  from assms(2) obtain c where "c \<in> set ts" "task_id c = e" by blast
  with findById_distinct [OF assms(1)] have "findById ts e = Some c" by blast
  with \<open>task_id c = e\<close> show ?case by (subst cycleWalk.simps) simp
next
  case (step x y)
  from step(1) obtain c where c: "c \<in> set ts" "task_id c = x" "parentTask c = Some y"
    by (auto simp: parent_rel_iff)
  with findById_distinct [OF assms(1)] have f: "findById ts x = Some c" by blast
  show ?case
  proof (cases "x = e")
    case True
    with f c show ?thesis by (subst cycleWalk.simps) simp
  next
    case False
    with f c step.IH show ?thesis by (subst cycleWalk.simps) simp
  qed
qed

lemma parentChecks_returns:
  assumes "acyclic (parent_rel ts)"
  shows "\<exists>r. parentChecks ts pt t = Some r"
proof (cases "Option.bind pt castObjectId")
  case None
  then show ?thesis by (simp add: parentChecks_def)
next
  case (Some p)
  from cycleWalk_returns [OF assms] obtain r where "cycleWalk ts (task_id t) (findById ts p) = Some r"
    by blast
  with Some show ?thesis by (simp add: parentChecks_def)
qed

lemma updateTask_returns:
  assumes "acyclic (parent_rel (todos d))"
  shows "\<exists>r. updateTask requester i b now d = Some r"
proof (cases "list_all (\<lambda>update. update \<in> set allowedUpdates) (map fst b)")
  case False
  then show ?thesis by (simp add: updateTask_def)
next
  case True
  show ?thesis
  proof (cases "findScoped requester (todos d) i")
    case None
    with True show ?thesis by (simp add: updateTask_def)
  next
    case (Some t)
    from parentChecks_returns [OF assms] obtain r
      where "parentChecks (todos d) (field b ''parentTask'') t = Some r" by blast
    with True Some show ?thesis by (cases r) (simp_all add: updateTask_def)
  qed
qed

lemma updateTask_diverges:
  assumes "list_all (\<lambda>update. update \<in> set allowedUpdates) (map fst b)"
    and "findScoped requester (todos d) i = Some t"
    and "field b ''parentTask'' = Some (JId p)"
    and "i \<notin> S" and "p \<in> S"
    and "\<forall>x\<in>S. \<exists>c q. findById (todos d) x = Some c \<and> parentTask c = Some q \<and> q \<in> S"
  shows "updateTask requester i b now d = None"
proof -
  from findScoped_Some [OF assms(2)] have i: "task_id t = i" by simp
  with assms(4,5) have ne: "p \<noteq> task_id t" by auto
  from cycleWalk_diverges [OF assms(4,6,5)] have "cycleWalk (todos d) i (findById (todos d) p) = None" .
  with assms(3) ne i have "parentChecks (todos d) (field b ''parentTask'') t = None"
    by (simp add: parentChecks_def)
  with assms(1,2) show ?thesis by (simp add: updateTask_def)
qed

section \<open>updateTask: the walk has no bound\<close>

text \<open>
  C3, as the code has it. The walk of \<^verbatim>\<open>updateTask\<close> counts nothing and has no
  depth limit. On a collection whose parent relation is acyclic it returns, for every
  request. When the proposed parent lies in a set of stored tasks that is closed under
  taking the parent and does not hold the edited task (a cycle elsewhere in the data,
  or a chain leading into one), the update never returns: no \<open>CycleError\<close>, no response.
\<close>

theorem cycle_walk_unbounded:
  assumes "list_all (\<lambda>update. update \<in> set allowedUpdates) (map fst b)"
    and "findScoped requester (todos d) i = Some t"
    and "field b ''parentTask'' = Some (JId p)"
  shows "(acyclic (parent_rel (todos d)) \<longrightarrow> (\<exists>r. updateTask requester i b now d = Some r))
     \<and> (i \<notin> S \<and> p \<in> S
          \<and> (\<forall>x\<in>S. \<exists>c q. findById (todos d) x = Some c \<and> parentTask c = Some q \<and> q \<in> S)
        \<longrightarrow> updateTask requester i b now d = None)"
  using updateTask_returns [of d requester i b now] updateTask_diverges [OF assms, where S = S and now = now]
  by blast

theorem cycle_walk_unbounded_witness:
  "list_all (\<lambda>update. update \<in> set allowedUpdates) (map fst [(''parentTask'', JId 11)])
   \<and> field [(''parentTask'', JId 11)] ''parentTask'' = Some (JId 11)
   \<and> findScoped \<lparr>user_id = 1, role = User\<rparr>
        (todos \<lparr>todos = [exTask 10 1 None 100, exTask 11 1 None 101, exTask 12 1 (Some 11) 102],
                users = []\<rparr>) 10 = Some (exTask 10 1 None 100)
   \<and> acyclic (parent_rel (todos
        \<lparr>todos = [exTask 10 1 None 100, exTask 11 1 None 101, exTask 12 1 (Some 11) 102], users = []\<rparr>))
   \<and> (\<exists>r. updateTask \<lparr>user_id = 1, role = User\<rparr> 10 [(''parentTask'', JId 11)] 200
        \<lparr>todos = [exTask 10 1 None 100, exTask 11 1 None 101, exTask 12 1 (Some 11) 102],
          users = []\<rparr> = Some r)
   \<and> findScoped \<lparr>user_id = 1, role = User\<rparr>
        (todos \<lparr>todos = [exTask 10 1 None 100, exTask 11 1 (Some 12) 101, exTask 12 1 (Some 11) 102],
                users = []\<rparr>) 10 = Some (exTask 10 1 None 100)
   \<and> 10 \<notin> {11, 12::oid} \<and> 11 \<in> {11, 12::oid}
   \<and> findById (todos
          \<lparr>todos = [exTask 10 1 None 100, exTask 11 1 (Some 12) 101, exTask 12 1 (Some 11) 102],
            users = []\<rparr>) 11 = Some (exTask 11 1 (Some 12) 101)
   \<and> findById (todos
          \<lparr>todos = [exTask 10 1 None 100, exTask 11 1 (Some 12) 101, exTask 12 1 (Some 11) 102],
            users = []\<rparr>) 12 = Some (exTask 12 1 (Some 11) 102)
   \<and> updateTask \<lparr>user_id = 1, role = User\<rparr> 10 [(''parentTask'', JId 11)] 200
        \<lparr>todos = [exTask 10 1 None 100, exTask 11 1 (Some 12) 101, exTask 12 1 (Some 11) 102],
          users = []\<rparr> = None"
proof -
  let ?b = "[(''parentTask'', JId 11)]"
  let ?u = "\<lparr>user_id = 1, role = User\<rparr>"
  let ?forest = "\<lparr>todos = [exTask 10 1 None 100, exTask 11 1 None 101, exTask 12 1 (Some 11) 102],
                   users = []\<rparr>"
  let ?looped = "\<lparr>todos = [exTask 10 1 None 100, exTask 11 1 (Some 12) 101, exTask 12 1 (Some 11) 102],
                   users = []\<rparr>"
  have allowed: "list_all (\<lambda>update. update \<in> set allowedUpdates) (map fst ?b)"
    by (simp add: allowedUpdates_def)
  have fld: "field ?b ''parentTask'' = Some (JId 11)"
    by (simp add: field_def)
  have f1: "findScoped ?u (todos ?forest) 10 = Some (exTask 10 1 None 100)"
    by (simp add: findScoped_def findOne_def isAdmin_def exTask_def)
  have f2: "findScoped ?u (todos ?looped) 10 = Some (exTask 10 1 None 100)"
    by (simp add: findScoped_def findOne_def isAdmin_def exTask_def)
  have ac: "acyclic (parent_rel (todos ?forest))"
    by (simp add: parent_rel_def edgesOf_def exTask_def acyclic_empty_rel)
  have closed: "\<forall>x\<in>{11, 12}. \<exists>c q. findById (todos ?looped) x = Some c
                  \<and> parentTask c = Some q \<and> q \<in> {11, 12}"
    by (simp add: findById_def exTask_def)
  from cycle_walk_unbounded [OF allowed f1 fld, where S = "{}" and now = 200] ac
  have r1: "\<exists>r. updateTask ?u 10 ?b 200 ?forest = Some r" by blast
  from cycle_walk_unbounded [OF allowed f2 fld, where S = "{11, 12}" and now = 200] closed
  have r2: "updateTask ?u 10 ?b 200 ?looped = None" by simp
  have stored: "findById (todos ?looped) 11 = Some (exTask 11 1 (Some 12) 101)"
    "findById (todos ?looped) 12 = Some (exTask 12 1 (Some 11) 102)"
    by (simp_all add: findById_def exTask_def)
  from allowed fld f1 f2 ac stored r1 r2 show ?thesis by simp
qed

text \<open>
  The claim as the specification states it fails: with tasks 11 and 12 each other's
  parent, giving task 10 the parent 11 yields no response at all.
\<close>

theorem cycle_walk_counterexample:
  "updateTask \<lparr>user_id = 1, role = User\<rparr> 10 [(''parentTask'', JId 11)] 200
     \<lparr>todos = [exTask 10 1 None 100, exTask 11 1 (Some 12) 101, exTask 12 1 (Some 11) 102],
       users = []\<rparr> = None"
proof -
  have "updateTask \<lparr>user_id = 1, role = User\<rparr> 10 [(''parentTask'', JId 11)] 200
     \<lparr>todos = [exTask 10 1 None 100, exTask 11 1 (Some 12) 101, exTask 12 1 (Some 11) 102],
       users = []\<rparr> = None"
    by (rule updateTask_diverges [where S = "{11, 12}" and p = 11 and t = "exTask 10 1 None 100"])
      (simp_all add: allowedUpdates_def findScoped_def findOne_def findById_def isAdmin_def
        field_def exTask_def)
  then show ?thesis .
qed

section \<open>Facts about a successful update\<close>

lemma assign_parentTask_other:
  "k \<noteq> ''parentTask'' \<Longrightarrow> assign k v t = Some t' \<Longrightarrow> parentTask t' = parentTask t"
  by (auto simp: assign_def split: if_splits json.splits)

lemma assignAll_parentTask:
  "''parentTask'' \<notin> fst ` set b \<Longrightarrow> assignAll b t = Some t' \<Longrightarrow> parentTask t' = parentTask t"
proof (induction b arbitrary: t)
  case Nil
  then show ?case by simp
next
  case (Cons kv b)
  from Cons.prems(2) obtain t1 where a: "assign (fst kv) (snd kv) t = Some t1"
    and r: "assignAll b t1 = Some t'"
    by (rule assignAll_Cons_Some)
  from Cons.prems(1) have k: "fst kv \<noteq> ''parentTask''" and rest: "''parentTask'' \<notin> fst ` set b"
    by auto
  from Cons.IH [OF rest r] assign_parentTask_other [OF k a] show ?case by simp
qed

lemma field_None: "field b k = None \<longleftrightarrow> k \<notin> fst ` set b"
  by (simp add: field_def map_of_eq_None_iff)

lemma saveUpdates_success:
  assumes "saveUpdates requester b now d t = (Inr t', d')"
  obtains t1 where "applyUpdates requester b t = Some t1" and "t' = stamp now t t1"
    and "d' = d\<lparr>todos := replaceTask t' (todos d)\<rparr>"
  using assms by (auto simp: saveUpdates_def split: option.splits if_splits)

lemma updateTask_success:
  assumes "updateTask requester i b now d = Some (Inr t', d')"
  obtains t where "findScoped requester (todos d) i = Some t"
    and "parentChecks (todos d) (field b ''parentTask'') t = Some (Inr ())"
    and "saveUpdates requester b now d t = (Inr t', d')"
proof -
  from assms have al: "list_all (\<lambda>update. update \<in> set allowedUpdates) (map fst b)"
    by (auto simp: updateTask_def split: if_splits)
  from assms al obtain t where f: "findScoped requester (todos d) i = Some t"
    by (auto simp: updateTask_def split: option.splits)
  from assms al f obtain checked where c: "parentChecks (todos d) (field b ''parentTask'') t = Some checked"
    and r: "(case checked of Inl e \<Rightarrow> Some (Inl e, d)
             | Inr u \<Rightarrow> Some (saveUpdates requester b now d t)) = Some (Inr t', d')"
    by (auto simp: updateTask_def bind_eq_Some_conv)
  from r have "checked = Inr ()" and "saveUpdates requester b now d t = (Inr t', d')"
    by (cases checked; simp)+
  with f c that show ?thesis by blast
qed

lemma parentChecks_ok_JId:
  assumes "parentChecks ts (Some (JId p)) t = Some (Inr ())"
  shows "p \<noteq> task_id t \<and> cycleWalk ts (task_id t) (findById ts p) = Some False"
  using assms by (auto simp: parentChecks_def bind_eq_Some_conv split: if_splits)

lemma parentChecks_ok_cast:
  assumes "parentChecks ts (Some v) t = Some (Inr ())" and "castObjectId v = Some p"
  shows "cycleWalk ts (task_id t) (findById ts p) = Some False"
  using assms by (cases v) (auto simp: parentChecks_def bind_eq_Some_conv split: if_splits)

lemma task_ids_replaceTask:
  "map task_id (replaceTask t' ts) = map task_id ts"
  by (induction ts) (auto simp: replaceTask_def)

lemma parent_rel_replaceTask:
  "parent_rel (replaceTask t' ts)
     \<subseteq> {(x, y). (x, y) \<in> parent_rel ts \<and> x \<noteq> task_id t'}
        \<union> (case parentTask t' of None \<Rightarrow> {} | Some q \<Rightarrow> {(task_id t', q)})"
proof
  fix e
  assume e: "e \<in> parent_rel (replaceTask t' ts)"
  obtain x y where xy: "e = (x, y)" by (cases e)
  with e obtain c where c: "c \<in> set (replaceTask t' ts)" "task_id c = x" "parentTask c = Some y"
    by (auto simp: parent_rel_iff)
  from c(1) obtain c0 where c0: "c0 \<in> set ts" "c = (if task_id c0 = task_id t' then t' else c0)"
    by (auto simp: replaceTask_def)
  show "e \<in> {(x, y). (x, y) \<in> parent_rel ts \<and> x \<noteq> task_id t'}
        \<union> (case parentTask t' of None \<Rightarrow> {} | Some q \<Rightarrow> {(task_id t', q)})"
  proof (cases "task_id c0 = task_id t'")
    case True
    with c0 c xy show ?thesis by simp
  next
    case False
    with c0 c have "(x, y) \<in> parent_rel ts" "x \<noteq> task_id t'"
      by (auto simp: parent_rel_iff)
    with xy show ?thesis by simp
  qed
qed

text \<open>
  Replacing a task by one whose parent is not among its descendants keeps the relation
  acyclic.
\<close>

lemma acyclic_replaceTask:
  assumes "acyclic (parent_rel ts)"
    and "\<And>q. parentTask t' = Some q \<Longrightarrow> (q, task_id t') \<notin> (parent_rel ts)\<^sup>*"
  shows "acyclic (parent_rel (replaceTask t' ts))"
proof -
  let ?R0 = "{(x, y). (x, y) \<in> parent_rel ts \<and> x \<noteq> task_id t'}"
  have sub: "?R0 \<subseteq> parent_rel ts" by auto
  from assms(1) sub have ac0: "acyclic ?R0" by (rule acyclic_subset)
  show ?thesis
  proof (cases "parentTask t'")
    case None
    with parent_rel_replaceTask [of t' ts] have "parent_rel (replaceTask t' ts) \<subseteq> ?R0" by simp
    with ac0 show ?thesis by (rule acyclic_subset)
  next
    case (Some q)
    from rtrancl_mono [OF sub] assms(2) [OF Some] have "(q, task_id t') \<notin> ?R0\<^sup>*" by blast
    with ac0 have "acyclic (insert (task_id t', q) ?R0)" by simp
    moreover from Some parent_rel_replaceTask [of t' ts]
    have "parent_rel (replaceTask t' ts) \<subseteq> insert (task_id t', q) ?R0" by auto
    ultimately show ?thesis by (rule acyclic_subset)
  qed
qed

lemma update_keeps_forest:
  assumes dist: "distinct (map task_id (todos d))" and keys: "distinct (map fst b)"
    and ac: "acyclic (parent_rel (todos d))"
    and ok: "updateTask requester i b now d = Some (Inr t', d')"
  shows "acyclic (parent_rel (todos d')) \<and> distinct (map task_id (todos d'))"
proof -
  from ok obtain t where f: "findScoped requester (todos d) i = Some t"
    and pc: "parentChecks (todos d) (field b ''parentTask'') t = Some (Inr ())"
    and sv: "saveUpdates requester b now d t = (Inr t', d')"
    by (rule updateTask_success)
  from sv obtain t1 where ap: "applyUpdates requester b t = Some t1"
    and t': "t' = stamp now t t1"
    and d': "d' = d\<lparr>todos := replaceTask t' (todos d)\<rparr>"
    by (rule saveUpdates_success)
  let ?b = "filter (\<lambda>(k, v). \<not> (k = ''owner'' \<and> \<not> isAdmin requester)) b"
  from ap have as: "assignAll ?b t = Some t1" by (simp add: applyUpdates_def)
  from findScoped_Some [OF f] have t: "t \<in> set (todos d)" "task_id t = i" by simp_all
  from assignAll_task_id [OF as] t' t have id': "task_id t' = i" by (simp add: stamp_fields)
  have noloop: "(q, task_id t') \<notin> (parent_rel (todos d))\<^sup>*" if q: "parentTask t' = Some q" for q
  proof (cases "field b ''parentTask''")
    case None
    then have "''parentTask'' \<notin> fst ` set ?b" by (auto simp: field_None)
    from assignAll_parentTask [OF this as] t' q have "parentTask t = Some q"
      by (simp add: stamp_fields)
    with t have edge: "(i, q) \<in> parent_rel (todos d)" by (auto simp: parent_rel_iff)
    show ?thesis
    proof
      assume "(q, task_id t') \<in> (parent_rel (todos d))\<^sup>*"
      with edge id' have "(i, i) \<in> (parent_rel (todos d))\<^sup>+" by (simp add: rtrancl_into_trancl2)
      with ac show False by (simp add: acyclic_def)
    qed
  next
    case (Some v)
    from field_member [OF Some] have m: "(''parentTask'', v) \<in> set ?b" by simp
    from keys have dk: "distinct (map fst ?b)" by (simp add: distinct_map_filter)
    from assignAll_holds [OF dk m as] have "assign ''parentTask'' v t1 = Some t1" .
    with q t' have v: "castObjectId v = Some q"
      by (auto simp: assign_def update_is_same stamp_fields split: json.splits)
    from pc Some have "parentChecks (todos d) (Some v) t = Some (Inr ())" by simp
    from parentChecks_ok_cast [OF this v]
    have "cycleWalk (todos d) (task_id t) (findById (todos d) q) = Some False" .
    with t have w: "cycleWalk (todos d) i (findById (todos d) q) = Some False" by simp
    show ?thesis
    proof
      assume "(q, task_id t') \<in> (parent_rel (todos d))\<^sup>*"
      with id' have "(q, i) \<in> (parent_rel (todos d))\<^sup>*" by simp
      from cycleWalk_reaches_True [OF dist _ this] t
      have "cycleWalk (todos d) i (findById (todos d) q) = Some True" by blast
      with w show False by simp
    qed
  qed
  from acyclic_replaceTask [OF ac noloop] d' have "acyclic (parent_rel (todos d'))" by simp
  moreover from dist d' have "distinct (map task_id (todos d'))"
    by (simp add: task_ids_replaceTask)
  ultimately show ?thesis ..
qed

text \<open>
  With unique ids, when the chain of parents from the proposed parent ends (at a task
  without a parent, or at an id that is not stored) and does not pass the edited task,
  the walk answers that it did not meet it.
\<close>

lemma cycleWalk_reaches_root:
  assumes "distinct (map task_id ts)"
    and "(x, r) \<in> (parent_rel ts)\<^sup>*" and "r \<notin> Domain (parent_rel ts)"
    and "(x, e) \<notin> (parent_rel ts)\<^sup>*"
  shows "cycleWalk ts e (findById ts x) = Some False"
  using assms(2,4)
proof (induction rule: converse_rtrancl_induct)
  case base
  then have ne: "r \<noteq> e" by auto
  have end_walk: "cycleWalk ts e None = Some False" by (subst cycleWalk.simps) simp
  show ?case
  proof (cases "findById ts r")
    case None
    with end_walk show ?thesis by simp
  next
    case (Some c)
    from findById_Some [OF Some] have c: "c \<in> set ts" "task_id c = r" by simp_all
    have "parentTask c = None"
    proof (cases "parentTask c")
      case None
      then show ?thesis .
    next
      case (Some q)
      with c have "(r, q) \<in> parent_rel ts" by (auto simp: parent_rel_iff)
      with assms(3) show ?thesis by auto
    qed
    with Some c ne end_walk show ?thesis by (subst cycleWalk.simps) simp
  qed
next
  case (step x y)
  from step(1) obtain c where c: "c \<in> set ts" "task_id c = x" "parentTask c = Some y"
    by (auto simp: parent_rel_iff)
  with findById_distinct [OF assms(1)] have f: "findById ts x = Some c" by blast
  from step(4) have ne: "x \<noteq> e" by auto
  have "(y, e) \<notin> (parent_rel ts)\<^sup>*"
  proof
    assume "(y, e) \<in> (parent_rel ts)\<^sup>*"
    with step(1) have "(x, e) \<in> (parent_rel ts)\<^sup>*" by (rule converse_rtrancl_into_rtrancl)
    with step(4) show False ..
  qed
  from step.IH [OF this] f c ne show ?case by (subst cycleWalk.simps) simp
qed

section \<open>updateTask: the parent relation stays a forest\<close>

text \<open>
  C2. The collection has unique ids and the body distinct keys. For a task \<open>i\<close> within
  the requester's scope and a proposed parent \<open>p\<close> other than \<open>i\<close>: when \<open>i\<close> is reached
  from \<open>p\<close> along \<open>parentTask\<close> pointers the update is refused with \<open>CycleError\<close> and the
  database is returned as it was; when the chain from \<open>p\<close> ends at an id \<open>r\<close> with no
  parent pointer (a task without parent, or an id that is not stored) and does not pass
  \<open>i\<close>, the update goes on to apply and save the fields. And every update that succeeds
  on an acyclic parent relation leaves it acyclic. The witness builds the chain of three
  tasks by two updates and has the third refused.
\<close>

theorem parent_relation_stays_forest:
  assumes "distinct (map task_id (todos d))" and "distinct (map fst b)"
  shows "(\<forall>t p. list_all (\<lambda>update. update \<in> set allowedUpdates) (map fst b)
            \<and> findScoped requester (todos d) i = Some t
            \<and> field b ''parentTask'' = Some (JId p) \<and> p \<noteq> i \<longrightarrow>
            ((p, i) \<in> (parent_rel (todos d))\<^sup>* \<longrightarrow>
               updateTask requester i b now d = Some (Inl CycleError, d))
          \<and> ((\<exists>r. (p, r) \<in> (parent_rel (todos d))\<^sup>* \<and> r \<notin> Domain (parent_rel (todos d)))
               \<and> (p, i) \<notin> (parent_rel (todos d))\<^sup>* \<longrightarrow>
               updateTask requester i b now d = Some (saveUpdates requester b now d t)))
     \<and> (\<forall>t' d'. acyclic (parent_rel (todos d))
            \<and> updateTask requester i b now d = Some (Inr t', d') \<longrightarrow>
            acyclic (parent_rel (todos d')) \<and> distinct (map task_id (todos d')))"
proof -
  have cyc: "updateTask requester i b now d = Some (Inl CycleError, d)"
    if al: "list_all (\<lambda>update. update \<in> set allowedUpdates) (map fst b)"
      and f: "findScoped requester (todos d) i = Some t"
      and fld: "field b ''parentTask'' = Some (JId p)" and ne: "p \<noteq> i"
      and reach: "(p, i) \<in> (parent_rel (todos d))\<^sup>*" for t p
  proof -
    from findScoped_Some [OF f] have t: "t \<in> set (todos d)" "task_id t = i" by simp_all
    from cycleWalk_reaches_True [OF assms(1) _ reach] t
    have "cycleWalk (todos d) i (findById (todos d) p) = Some True" by blast
    with fld ne t have "parentChecks (todos d) (field b ''parentTask'') t = Some (Inl CycleError)"
      by (simp add: parentChecks_def)
    with al f show ?thesis by (simp add: updateTask_def)
  qed
  have acc: "updateTask requester i b now d = Some (saveUpdates requester b now d t)"
    if al: "list_all (\<lambda>update. update \<in> set allowedUpdates) (map fst b)"
      and f: "findScoped requester (todos d) i = Some t"
      and fld: "field b ''parentTask'' = Some (JId p)" and ne: "p \<noteq> i"
      and root: "(p, r) \<in> (parent_rel (todos d))\<^sup>*" "r \<notin> Domain (parent_rel (todos d))"
      and nreach: "(p, i) \<notin> (parent_rel (todos d))\<^sup>*" for t p r
  proof -
    from findScoped_Some [OF f] have t: "task_id t = i" by simp
    from cycleWalk_reaches_root [OF assms(1) root nreach]
    have "cycleWalk (todos d) i (findById (todos d) p) = Some False" .
    with fld ne t have "parentChecks (todos d) (field b ''parentTask'') t = Some (Inr ())"
      by (simp add: parentChecks_def)
    with al f show ?thesis by (simp add: updateTask_def)
  qed
  from cyc acc update_keeps_forest [OF assms] show ?thesis by blast
qed

theorem parent_relation_stays_forest_witness:
  "distinct (map task_id [exTask 10 1 None 100, exTask 11 1 None 101, exTask 12 1 None 102])
   \<and> acyclic (parent_rel [exTask 10 1 None 100, exTask 11 1 None 101, exTask 12 1 None 102])
   \<and> updateTask \<lparr>user_id = 1, role = User\<rparr> 11 [(''parentTask'', JId 10)] 200
        \<lparr>todos = [exTask 10 1 None 100, exTask 11 1 None 101, exTask 12 1 None 102], users = []\<rparr>
       = Some (Inr (exTask 11 1 (Some 10) 101\<lparr>updatedAt := 200\<rparr>),
           \<lparr>todos = [exTask 10 1 None 100, exTask 11 1 (Some 10) 101\<lparr>updatedAt := 200\<rparr>,
                     exTask 12 1 None 102], users = []\<rparr>)
   \<and> updateTask \<lparr>user_id = 1, role = User\<rparr> 12 [(''parentTask'', JId 11)] 201
        \<lparr>todos = [exTask 10 1 None 100, exTask 11 1 (Some 10) 101\<lparr>updatedAt := 200\<rparr>,
                  exTask 12 1 None 102], users = []\<rparr>
       = Some (Inr (exTask 12 1 (Some 11) 102\<lparr>updatedAt := 201\<rparr>),
           \<lparr>todos = [exTask 10 1 None 100, exTask 11 1 (Some 10) 101\<lparr>updatedAt := 200\<rparr>,
                     exTask 12 1 (Some 11) 102\<lparr>updatedAt := 201\<rparr>], users = []\<rparr>)
   \<and> acyclic (parent_rel [exTask 10 1 None 100, exTask 11 1 (Some 10) 101\<lparr>updatedAt := 200\<rparr>,
                     exTask 12 1 (Some 11) 102\<lparr>updatedAt := 201\<rparr>])
   \<and> updateTask \<lparr>user_id = 1, role = User\<rparr> 10 [(''parentTask'', JId 12)] 202
        \<lparr>todos = [exTask 10 1 None 100, exTask 11 1 (Some 10) 101\<lparr>updatedAt := 200\<rparr>,
                  exTask 12 1 (Some 11) 102\<lparr>updatedAt := 201\<rparr>], users = []\<rparr>
       = Some (Inl CycleError,
           \<lparr>todos = [exTask 10 1 None 100, exTask 11 1 (Some 10) 101\<lparr>updatedAt := 200\<rparr>,
                     exTask 12 1 (Some 11) 102\<lparr>updatedAt := 201\<rparr>], users = []\<rparr>)"
proof -
  let ?u = "\<lparr>user_id = 1, role = User\<rparr>"
  let ?A = "exTask 10 1 None 100"
  let ?B = "exTask 11 1 None 101"
  let ?C = "exTask 12 1 None 102"
  let ?B' = "exTask 11 1 (Some 10) 101\<lparr>updatedAt := 200\<rparr>"
  let ?C' = "exTask 12 1 (Some 11) 102\<lparr>updatedAt := 201\<rparr>"
  let ?d0 = "\<lparr>todos = [?A, ?B, ?C], users = []\<rparr>"
  let ?d1 = "\<lparr>todos = [?A, ?B', ?C], users = []\<rparr>"
  let ?d2 = "\<lparr>todos = [?A, ?B', ?C'], users = []\<rparr>"
  note ev = allowedUpdates_def findScoped_def findOne_def isAdmin_def field_def exTask_def
    parent_rel_def edgesOf_def acyclic_empty_rel rtrancl_insert saveUpdates_def stamp_def
    applyUpdates_def
    assign_def validate_def replaceTask_def
  have i0: "distinct (map task_id (todos ?d0))" "acyclic (parent_rel (todos ?d0))"
    by (simp_all add: ev)
  have i1: "distinct (map task_id (todos ?d1))"
    by (simp add: ev)
  have i2: "distinct (map task_id (todos ?d2))"
    by (simp add: ev)
  have k1: "distinct (map fst [(''parentTask'', JId 10)])"
    and k2: "distinct (map fst [(''parentTask'', JId 11)])"
    and k3: "distinct (map fst [(''parentTask'', JId 12)])"
    by simp_all
  have step1: "updateTask ?u 11 [(''parentTask'', JId 10)] 200 ?d0 = Some (Inr ?B', ?d1)"
  proof -
    have "list_all (\<lambda>update. update \<in> set allowedUpdates) (map fst [(''parentTask'', JId 10)])"
      "findScoped ?u (todos ?d0) 11 = Some ?B"
      "field [(''parentTask'', JId 10)] ''parentTask'' = Some (JId 10)" "(10::oid) \<noteq> 11"
      "(10, 10) \<in> (parent_rel (todos ?d0))\<^sup>*" "10 \<notin> Domain (parent_rel (todos ?d0))"
      "(10, 11) \<notin> (parent_rel (todos ?d0))\<^sup>*"
      by (simp_all add: ev)
    with parent_relation_stays_forest [OF i0(1) k1, of ?u 11 200]
    have "updateTask ?u 11 [(''parentTask'', JId 10)] 200 ?d0
            = Some (saveUpdates ?u [(''parentTask'', JId 10)] 200 ?d0 ?B)"
      by blast
    then show ?thesis by (simp add: ev)
  qed
  have step2: "updateTask ?u 12 [(''parentTask'', JId 11)] 201 ?d1 = Some (Inr ?C', ?d2)"
  proof -
    have "list_all (\<lambda>update. update \<in> set allowedUpdates) (map fst [(''parentTask'', JId 11)])"
      "findScoped ?u (todos ?d1) 12 = Some ?C"
      "field [(''parentTask'', JId 11)] ''parentTask'' = Some (JId 11)" "(11::oid) \<noteq> 12"
      "(11, 10) \<in> (parent_rel (todos ?d1))\<^sup>*" "10 \<notin> Domain (parent_rel (todos ?d1))"
      "(11, 12) \<notin> (parent_rel (todos ?d1))\<^sup>*"
      by (simp_all add: ev)
    with parent_relation_stays_forest [OF i1 k2, of ?u 12 201]
    have "updateTask ?u 12 [(''parentTask'', JId 11)] 201 ?d1
            = Some (saveUpdates ?u [(''parentTask'', JId 11)] 201 ?d1 ?C)"
      by blast
    then show ?thesis by (simp add: ev)
  qed
  have step3: "updateTask ?u 10 [(''parentTask'', JId 12)] 202 ?d2 = Some (Inl CycleError, ?d2)"
  proof -
    have "list_all (\<lambda>update. update \<in> set allowedUpdates) (map fst [(''parentTask'', JId 12)])"
      "findScoped ?u (todos ?d2) 10 = Some ?A"
      "field [(''parentTask'', JId 12)] ''parentTask'' = Some (JId 12)" "(12::oid) \<noteq> 10"
      "(12, 10) \<in> (parent_rel (todos ?d2))\<^sup>*"
      by (simp_all add: ev)
    with parent_relation_stays_forest [OF i2 k3, of ?u 10 202]
    show ?thesis
      by blast
  qed
  have ac1: "acyclic (parent_rel (todos ?d1))"
    using parent_relation_stays_forest [OF i0(1) k1, of ?u 11 200] i0(2) step1
    by blast
  have ac2: "acyclic (parent_rel (todos ?d2))"
    using parent_relation_stays_forest [OF i1 k2, of ?u 12 201] ac1 step2
    by blast
  from i0 step1 step2 step3 ac2 show ?thesis by simp
qed

section \<open>Facts about the cascade\<close>

lemma queryOwner_idem: "queryOwner (queryOwner q) = queryOwner q"
  by (cases q) simp_all

lemma without_empty: "without {} ts = ts"
  by (simp add: without_def)

lemma set_without: "set (without K ts) = {t \<in> set ts. task_id t \<notin> K}"
  by (auto simp: without_def)

lemma distinct_without: "distinct (map task_id ts) \<Longrightarrow> distinct (map task_id (without K ts))"
  by (simp add: without_def distinct_map_filter)

lemma filter_without:
  "filter (\<lambda>t. task_id t \<noteq> x) (without K ts) = without (K \<union> {x}) ts"
  by (induction ts) (auto simp: without_def)

lemma without_cong: "(\<And>t. t \<in> set ts \<Longrightarrow> (task_id t \<in> K) = (task_id t \<in> K')) \<Longrightarrow>
    without K ts = without K' ts"
  unfolding without_def by (rule filter_cong) auto

lemma find_unique:
  "distinct (map task_id ts) \<Longrightarrow> c \<in> set ts \<Longrightarrow> Q c \<Longrightarrow>
     find (\<lambda>t. task_id t = task_id c \<and> Q t) ts = Some c"
proof (induction ts)
  case Nil
  then show ?case by simp
next
  case (Cons a ts)
  then show ?case by (auto simp: rev_image_eqI)
qed

lemma find_absent:
  "x \<notin> task_id ` set ts \<Longrightarrow> find (\<lambda>t. task_id t = x \<and> Q t) ts = None"
  by (auto simp: find_None_iff)

lemma removeFirst_none:
  "find P ts = None \<Longrightarrow> removeFirst P ts = ts"
  by (induction ts) (auto split: if_splits)

lemma removeFirst_unique:
  "distinct (map task_id ts) \<Longrightarrow> find (\<lambda>t. task_id t = x \<and> Q t) ts = Some c \<Longrightarrow>
     removeFirst (\<lambda>t. task_id t = x \<and> Q t) ts = filter (\<lambda>t. task_id t \<noteq> x) ts"
proof (induction ts)
  case Nil
  then show ?case by simp
next
  case (Cons a ts)
  show ?case
  proof (cases "task_id a = x \<and> Q a")
    case True
    with Cons.prems(1) have "x \<notin> task_id ` set ts" by auto
    then have "\<forall>t\<in>set ts. task_id t \<noteq> x" by blast
    then have "filter (\<lambda>t. task_id t \<noteq> x) ts = ts" by (simp add: filter_id_conv)
    with True show ?thesis by simp
  next
    case False
    with Cons.prems(2) have f: "find (\<lambda>t. task_id t = x \<and> Q t) ts = Some c" by simp
    then have "c \<in> set ts" "task_id c = x" by (auto simp: find_Some_iff)
    with Cons.prems(1) have "task_id a \<noteq> x" by auto
    with False Cons.IH [OF _ f] Cons.prems(1) show ?thesis by simp
  qed
qed

lemma downClosed_Un: "downClosed E K \<Longrightarrow> downClosed E K' \<Longrightarrow> downClosed E (K \<union> K')"
  by (auto simp: downClosed_def)

lemma downClosed_below: "downClosed E {y. (y, x) \<in> E\<^sup>*}"
  by (auto simp: downClosed_def intro: converse_rtrancl_into_rtrancl)

lemma downClosed_strict: "downClosed E {y. (y, x) \<in> E\<^sup>+}"
  by (auto simp: downClosed_def intro: trancl_into_trancl2)

lemma downClosed_empty: "downClosed E {}"
  by (simp add: downClosed_def)

lemma downClosed_trancl:
  assumes "downClosed E K" and "(y, p) \<in> E\<^sup>+" and "p \<in> K"
  shows "y \<in> K"
  using assms(2,3)
proof (induction rule: converse_trancl_induct)
  case (base y)
  with assms(1) show ?case by (auto simp: downClosed_def)
next
  case (step y z)
  with assms(1) show ?case by (auto simp: downClosed_def)
qed

lemma downClosed_rtrancl:
  assumes "downClosed E K" and "(y, p) \<in> E\<^sup>*" and "p \<in> K"
  shows "y \<in> K"
  using assms by (auto simp: rtrancl_eq_or_trancl dest: downClosed_trancl)

lemma descendantsFirst_append:
  "descendantsFirst E (xs @ ys) \<longleftrightarrow>
     descendantsFirst E xs \<and> descendantsFirst E ys \<and> (\<forall>p\<in>set xs. \<forall>c\<in>set ys. (c, p) \<notin> E\<^sup>+)"
  by (induction xs) auto

lemma strict_as_children:
  "{y. (y, x) \<in> E\<^sup>+} = (\<Union>c\<in>{c. (c, x) \<in> E}. {y. (y, c) \<in> E\<^sup>*})"
  by (auto dest: tranclD2 intro: rtrancl_into_trancl1)

lemma below_insert: "{y. (y, x) \<in> E\<^sup>*} = insert x {y. (y, x) \<in> E\<^sup>+}"
  by (auto simp: rtrancl_eq_or_trancl)

text \<open>
  The loop of the hook. If every call on a child removes, from the collection without a
  closed set \<open>K\<close>, exactly the child's subtree, then the loop over the children removes
  the union of their subtrees, and the removals come descendants first.
\<close>

lemma cascade_loop:
  assumes "\<And>c K log. c \<in> set cs \<Longrightarrow> downClosed E K \<Longrightarrow>
       \<exists>found L. findOneAndDelete (task_id c) q' (without K base, log)
            = Some (found, without (K \<union> {y. (y, task_id c) \<in> E\<^sup>*}) base, log @ L)
          \<and> set L = {y. (y, task_id c) \<in> E\<^sup>*} - K \<and> distinct L \<and> descendantsFirst E L"
    and "downClosed E K"
  shows "\<exists>L. forEach (\<lambda>child st'. Option.bind (findOneAndDelete (task_id child) q' st')
                                     (\<lambda>r. Some (snd r)))
              cs (without K base, log)
           = Some (without (K \<union> (\<Union>c\<in>set cs. {y. (y, task_id c) \<in> E\<^sup>*})) base, log @ L)
         \<and> set L = (\<Union>c\<in>set cs. {y. (y, task_id c) \<in> E\<^sup>*}) - K
         \<and> distinct L \<and> descendantsFirst E L"
  using assms
proof (induction cs arbitrary: K log)
  case Nil
  have "forEach (\<lambda>child st'. Option.bind (findOneAndDelete (task_id child) q' st')
                                     (\<lambda>r. Some (snd r)))
              [] (without K base, log) = Some (without (K \<union> (\<Union>c\<in>set []. {y. (y, task_id c) \<in> E\<^sup>*})) base, log @ [])"
    by simp
  then show ?case by (intro exI [of _ "[]"]) simp
next
  case (Cons c cs)
  let ?f = "\<lambda>child st'. Option.bind (findOneAndDelete (task_id child) q' st') (\<lambda>r. Some (snd r))"
  let ?below = "\<lambda>c. {y. (y, task_id c) \<in> E\<^sup>*}"
  from Cons.prems(1) [of c K log] Cons.prems(2) obtain found L1 where
    call: "findOneAndDelete (task_id c) q' (without K base, log)
            = Some (found, without (K \<union> ?below c) base, log @ L1)"
    and L1: "set L1 = ?below c - K" "distinct L1" "descendantsFirst E L1"
    by auto
  let ?K1 = "K \<union> ?below c"
  from Cons.prems(2) downClosed_below have dc1: "downClosed E ?K1" by (rule downClosed_Un)
  have "\<exists>L. forEach ?f cs (without ?K1 base, log @ L1)
           = Some (without (?K1 \<union> (\<Union>c\<in>set cs. ?below c)) base, (log @ L1) @ L)
         \<and> set L = (\<Union>c\<in>set cs. ?below c) - ?K1 \<and> distinct L \<and> descendantsFirst E L"
  proof (rule Cons.IH)
    fix c' K' log'
    assume "c' \<in> set cs" and dc: "downClosed E K'"
    then have "c' \<in> set (c # cs)" by simp
    from Cons.prems(1) [OF this dc]
    show "\<exists>found L. findOneAndDelete (task_id c') q' (without K' base, log')
            = Some (found, without (K' \<union> {y. (y, task_id c') \<in> E\<^sup>*}) base, log' @ L)
          \<and> set L = {y. (y, task_id c') \<in> E\<^sup>*} - K' \<and> distinct L \<and> descendantsFirst E L" .
  next
    show "downClosed E ?K1" by (rule dc1)
  qed
  then obtain L2 where
    rest: "forEach ?f cs (without ?K1 base, log @ L1)
           = Some (without (?K1 \<union> (\<Union>c\<in>set cs. ?below c)) base, (log @ L1) @ L2)"
    and L2: "set L2 = (\<Union>c\<in>set cs. ?below c) - ?K1" "distinct L2" "descendantsFirst E L2"
    by blast
  have ids: "?K1 \<union> (\<Union>c\<in>set cs. ?below c) = K \<union> (\<Union>c\<in>set (c # cs). ?below c)"
    by auto
  from call rest have run: "forEach ?f (c # cs) (without K base, log)
      = Some (without (K \<union> (\<Union>c\<in>set (c # cs). ?below c)) base, log @ (L1 @ L2))"
    by (simp add: ids)
  from L1(1) L2(1) have s: "set (L1 @ L2) = (\<Union>c\<in>set (c # cs). ?below c) - K"
    by auto
  from L1(1,2) L2(1,2) have d: "distinct (L1 @ L2)" by auto
  have cross: "(y, p) \<notin> E\<^sup>+" if p: "p \<in> set L1" and y: "y \<in> set L2" for p y
  proof
    assume yp: "(y, p) \<in> E\<^sup>+"
    from p L1(1) have "p \<in> ?K1" by auto
    with dc1 yp have "y \<in> ?K1" by (rule downClosed_trancl)
    with y L2(1) show False by auto
  qed
  with L1(3) L2(3) have o: "descendantsFirst E (L1 @ L2)"
    by (simp add: descendantsFirst_append)
  from run s d o show ?case by blast
qed

text \<open>
  One call of \<^verbatim>\<open>findOneAndDelete\<close> with its hook, on the collection \<open>base\<close> without a
  closed set \<open>K\<close>: the hook removes what is left of the strict descendants of \<open>x\<close>,
  descendants first, and then the query removes \<open>x\<close> itself if it matches. The edges
  \<open>E\<close> are those of the children that pass the hook's owner entry; they are well-founded
  when the parent relation is acyclic.
\<close>

lemma cascade_call:
  assumes dist: "distinct (map task_id base)"
    and E: "E = set (edgesOf (ownerMatches q') base)"
    and wf: "wf E"
    and q': "queryOwner q' = q'"
  shows "downClosed E K \<Longrightarrow> queryOwner q = q' \<Longrightarrow>
     \<exists>L. findOneAndDelete x q (without K base, log)
        = Some (find (\<lambda>t. task_id t = x \<and> ownerMatches q t) (without (K \<union> {y. (y, x) \<in> E\<^sup>+}) base),
                removeFirst (\<lambda>t. task_id t = x \<and> ownerMatches q t)
                  (without (K \<union> {y. (y, x) \<in> E\<^sup>+}) base),
                (case find (\<lambda>t. task_id t = x \<and> ownerMatches q t)
                        (without (K \<union> {y. (y, x) \<in> E\<^sup>+}) base) of
                   None \<Rightarrow> log @ L
                 | Some t \<Rightarrow> (log @ L) @ [x]))
      \<and> set L = {y. (y, x) \<in> E\<^sup>+} - K \<and> distinct L \<and> descendantsFirst E L"
  using wf
proof (induction x arbitrary: K log q rule: wf_induct_rule)
  case (less x)
  from wf have ac: "acyclic E" by (rule wf_acyclic)
  let ?f = "\<lambda>child st'. Option.bind (findOneAndDelete (task_id child) q' st') (\<lambda>r. Some (snd r))"
  let ?cs = "filter (\<lambda>c. parentTask c = Some x \<and> ownerMatches q' c) (without K base)"
  let ?below = "\<lambda>c. {y. (y, task_id c) \<in> E\<^sup>*}"
  let ?strict = "\<lambda>i. {y. (y, i) \<in> E\<^sup>+}"
  have child: "c \<in> set base \<and> task_id c \<notin> K \<and> (task_id c, x) \<in> E \<and> ownerMatches q' c"
    if "c \<in> set ?cs" for c
    using that by (auto simp: E edgesOf_iff set_without)
  have step: "\<exists>found L. findOneAndDelete (task_id c) q' (without K' base, log')
            = Some (found, without (K' \<union> ?below c) base, log' @ L)
          \<and> set L = ?below c - K' \<and> distinct L \<and> descendantsFirst E L"
    if c: "c \<in> set ?cs" and dc: "downClosed E K'" for c K' log'
  proof -
    from child [OF c] have c0: "c \<in> set base" and edge: "(task_id c, x) \<in> E"
      and mc: "ownerMatches q' c" by simp_all
    let ?P = "\<lambda>t. task_id t = task_id c \<and> ownerMatches q' t"
    let ?W = "without (K' \<union> ?strict (task_id c)) base"
    from less.IH [OF edge dc q', of log'] obtain Lc where
      call: "findOneAndDelete (task_id c) q' (without K' base, log')
          = Some (find ?P ?W, removeFirst ?P ?W,
                  (case find ?P ?W of None \<Rightarrow> log' @ Lc | Some t \<Rightarrow> (log' @ Lc) @ [task_id c]))"
      and Lc: "set Lc = ?strict (task_id c) - K'" "distinct Lc" "descendantsFirst E Lc"
      by blast
    from ac have self: "task_id c \<notin> ?strict (task_id c)" by (auto simp: acyclic_def)
    show ?thesis
    proof (cases "task_id c \<in> K'")
      case True
      then have "task_id c \<notin> task_id ` set ?W" by (auto simp: set_without)
      then have none: "find ?P ?W = None" by (rule find_absent)
      then have rm: "removeFirst ?P ?W = ?W" by (rule removeFirst_none)
      from True have "?W = without (K' \<union> ?below c) base"
        by (intro without_cong) (auto simp: below_insert)
      with call none rm have "findOneAndDelete (task_id c) q' (without K' base, log')
            = Some (None, without (K' \<union> ?below c) base, log' @ Lc)" by simp
      moreover from True Lc(1) have "set Lc = ?below c - K'" by (auto simp: below_insert)
      ultimately show ?thesis using Lc(2,3) by blast
    next
      case False
      with c0 self have "c \<in> set ?W" by (auto simp: set_without)
      with distinct_without [OF dist] mc have some: "find ?P ?W = Some c"
        by (intro find_unique) auto
      from distinct_without [OF dist] some
      have "removeFirst ?P ?W = filter (\<lambda>t. task_id t \<noteq> task_id c) ?W"
        by (rule removeFirst_unique)
      also have "\<dots> = without (K' \<union> ?strict (task_id c) \<union> {task_id c}) base"
        by (rule filter_without)
      also have "\<dots> = without (K' \<union> ?below c) base"
        by (intro without_cong) (auto simp: below_insert)
      finally have rm: "removeFirst ?P ?W = without (K' \<union> ?below c) base" .
      from call some rm have "findOneAndDelete (task_id c) q' (without K' base, log')
            = Some (Some c, without (K' \<union> ?below c) base, log' @ (Lc @ [task_id c]))" by simp
      moreover from False Lc(1) have "set (Lc @ [task_id c]) = ?below c - K'"
        by (auto simp: below_insert)
      moreover from self Lc(1,2) have "distinct (Lc @ [task_id c])" by auto
      moreover have "descendantsFirst E (Lc @ [task_id c])"
      proof -
        have "(task_id c, p) \<notin> E\<^sup>+" if "p \<in> set Lc" for p
        proof
          assume "(task_id c, p) \<in> E\<^sup>+"
          moreover from that Lc(1) have "(p, task_id c) \<in> E\<^sup>+" by auto
          ultimately have "(task_id c, task_id c) \<in> E\<^sup>+" by (rule trancl_trans)
          with ac show False by (auto simp: acyclic_def)
        qed
        with Lc(3) show ?thesis by (simp add: descendantsFirst_append)
      qed
      ultimately show ?thesis by blast
    qed
  qed
  from cascade_loop [of ?cs E q' base K log, OF step less.prems(1)] obtain L where
    loop: "forEach ?f ?cs (without K base, log)
           = Some (without (K \<union> (\<Union>c\<in>set ?cs. ?below c)) base, log @ L)"
    and L: "set L = (\<Union>c\<in>set ?cs. ?below c) - K" "distinct L" "descendantsFirst E L"
    by blast
  have ids: "K \<union> (\<Union>c\<in>set ?cs. ?below c) = K \<union> ?strict x"
  proof (intro equalityI subsetI)
    fix y assume y: "y \<in> K \<union> (\<Union>c\<in>set ?cs. ?below c)"
    show "y \<in> K \<union> ?strict x"
    proof (cases "y \<in> K")
      case True
      then show ?thesis by simp
    next
      case False
      with y obtain c where c: "c \<in> set ?cs" and yc: "(y, task_id c) \<in> E\<^sup>*" by blast
      from child [OF c] have "(task_id c, x) \<in> E" by simp
      with yc have "(y, x) \<in> E\<^sup>+" by (rule rtrancl_into_trancl1)
      then show ?thesis by simp
    qed
  next
    fix y assume y: "y \<in> K \<union> ?strict x"
    show "y \<in> K \<union> (\<Union>c\<in>set ?cs. ?below c)"
    proof (cases "y \<in> K")
      case True
      then show ?thesis by simp
    next
      case False
      with y obtain z where yz: "(y, z) \<in> E\<^sup>*" and zx: "(z, x) \<in> E"
        by (auto dest: tranclD2)
      from False yz less.prems(1) have "z \<notin> K" by (auto dest: downClosed_rtrancl)
      moreover from zx obtain c where "c \<in> set base" "task_id c = z" "parentTask c = Some x"
        "ownerMatches q' c" by (auto simp: E edgesOf_iff)
      ultimately have "c \<in> set ?cs" "(y, task_id c) \<in> E\<^sup>*"
        using yz by (simp_all add: set_without)
      then show ?thesis by blast
    qed
  qed
  let ?P = "\<lambda>t. task_id t = x \<and> ownerMatches q t"
  let ?W = "without (K \<union> ?strict x) base"
  from loop ids have loop': "forEach ?f ?cs (without K base, log) = Some (?W, log @ L)" by simp
  have "findOneAndDelete x q (without K base, log)
      = Option.bind (forEach ?f ?cs (without K base, log))
          (\<lambda>st'. Some (find ?P (fst st'), removeFirst ?P (fst st'),
                       (case find ?P (fst st') of None \<Rightarrow> snd st' | Some t \<Rightarrow> snd st' @ [x])))"
    by (subst findOneAndDelete.simps) (simp add: less.prems(2))
  with loop' have "findOneAndDelete x q (without K base, log)
      = Some (find ?P ?W, removeFirst ?P ?W,
              (case find ?P ?W of None \<Rightarrow> log @ L | Some t \<Rightarrow> (log @ L) @ [x]))"
    by (simp cong: option.case_cong)
  moreover from L(1) ids have "set L = ?strict x - K" by auto
  ultimately show ?case using L(2,3) by blast
qed

lemma hook_edges_subset: "set (edgesOf m ts) \<subseteq> parent_rel ts"
  by (auto simp: edgesOf_iff parent_rel_iff)

lemma findScoped_without:
  "x \<in> K \<Longrightarrow> findScoped u (without K ts) x = None"
  by (auto simp: findScoped_def findById_def findOne_def find_None_iff set_without)

section \<open>deleteTask: the cascade\<close>

text \<open>
  What a delete removes, in the hook's own terms. The collection has unique ids and an
  acyclic parent relation, and \<open>R\<close> is a stored task within the requester's scope. Then
  \<^verbatim>\<open>deleteTask\<close> returns \<open>R\<close> and removes \<open>R\<close> together with every id that reaches
  \<open>R\<close> along the children that pass the owner entry the hook reads back from the
  triggering query: each once, \<open>R\<close> last, no task after one of its ancestors.
\<close>

lemma deleteTask_removes:
  assumes "distinct (map task_id (todos d))"
    and "acyclic (parent_rel (todos d))"
    and "R \<in> set (todos d)"
    and "isAdmin requester \<or> owner R = user_id requester"
    and q: "q = (if isAdmin requester then NoOwnerKey else OwnerIs (user_id requester))"
    and C: "C = {x. (x, task_id R) \<in> (set (edgesOf (ownerMatches (queryOwner q)) (todos d)))\<^sup>*}"
  shows "\<exists>log. deleteTask requester (task_id R) d
            = Some (Inr R, d\<lparr>todos := without C (todos d)\<rparr>, log)
      \<and> set log = C \<and> distinct log \<and> last log = task_id R
      \<and> descendantsFirst (set (edgesOf (ownerMatches (queryOwner q)) (todos d))) log"
proof -
  let ?E = "set (edgesOf (ownerMatches (queryOwner q)) (todos d))"
  let ?i = "task_id R"
  let ?strict = "{y. (y, ?i) \<in> ?E\<^sup>+}"
  let ?P = "\<lambda>t. task_id t = ?i \<and> ownerMatches q t"
  let ?W = "without ({} \<union> ?strict) (todos d)"
  have C': "C = insert ?i ?strict"
    by (simp add: C below_insert)
  from assms(2) hook_edges_subset have ac: "acyclic ?E" by (rule acyclic_subset)
  then have wf: "wf ?E" by (intro finite_acyclic_wf) simp_all
  from ac have self: "?i \<notin> ?strict" by (auto simp: acyclic_def)
  from cascade_call [where base = "todos d" and q' = "queryOwner q" and E = ?E
      and K = "{}" and q = q and x = ?i and log = "[]",
      OF assms(1) refl wf queryOwner_idem downClosed_empty refl]
  obtain L where
    call: "findOneAndDelete ?i q (without {} (todos d), [])
        = Some (find ?P ?W, removeFirst ?P ?W,
                (case find ?P ?W of None \<Rightarrow> [] @ L | Some t \<Rightarrow> ([] @ L) @ [?i]))"
    and L: "set L = ?strict - {}" "distinct L" "descendantsFirst ?E L"
    by blast
  from assms(3) self have inW: "R \<in> set ?W" by (auto simp: set_without)
  from assms(4) have "ownerMatches q R" by (auto simp: q)
  with distinct_without [OF assms(1)] inW have some: "find ?P ?W = Some R"
    by (intro find_unique) auto
  from distinct_without [OF assms(1)] some
  have "removeFirst ?P ?W = filter (\<lambda>t. task_id t \<noteq> ?i) ?W"
    by (rule removeFirst_unique)
  also have "\<dots> = without ({} \<union> ?strict \<union> {?i}) (todos d)"
    by (rule filter_without)
  also have "\<dots> = without C (todos d)"
    by (intro without_cong) (auto simp: C')
  finally have rm: "removeFirst ?P ?W = without C (todos d)" .
  let ?log = "L @ [?i]"
  from call some rm have "findOneAndDelete ?i q (todos d, []) = Some (Some R, without C (todos d), ?log)"
    by (simp add: without_empty)
  then have run: "deleteTask requester ?i d = Some (Inr R, d\<lparr>todos := without C (todos d)\<rparr>, ?log)"
    by (simp add: deleteTask_def q)
  from L(1) have s: "set ?log = C" by (auto simp: C')
  from L(1,2) self have dl: "distinct ?log" by auto
  have order: "descendantsFirst ?E ?log"
  proof -
    have "(?i, p) \<notin> ?E\<^sup>+" if "p \<in> set L" for p
    proof
      assume "(?i, p) \<in> ?E\<^sup>+"
      moreover from that L(1) have "(p, ?i) \<in> ?E\<^sup>+" by auto
      ultimately have "(?i, ?i) \<in> ?E\<^sup>+" by (rule trancl_trans)
      with ac show False by (auto simp: acyclic_def)
    qed
    with L(3) show ?thesis by (simp add: descendantsFirst_append)
  qed
  from run s dl order show ?thesis
    by (intro exI [of _ ?log]) simp
qed

text \<open>
  The cascade of a user's delete. For a user who owns \<open>R\<close>, on a collection with unique ids and
  an acyclic parent relation, \<^verbatim>\<open>deleteTask\<close> returns \<open>R\<close> and leaves the collection
  without the subtree of the specification; exactly its ids are removed, each once, \<open>R\<close>
  last and no task after one of its ancestors, and afterwards \<^verbatim>\<open>getTaskById\<close>
  answers \<open>NotFound\<close> for each of them, whoever asks.
\<close>

theorem user_cascade_removes_subtree:
  assumes "distinct (map task_id (todos d))"
    and "acyclic (parent_rel (todos d))"
    and "R \<in> set (todos d)"
    and "\<not> isAdmin requester" and "owner R = user_id requester"
  shows "\<exists>log. deleteTask requester (task_id R) d
            = Some (Inr R,
                    d\<lparr>todos := without (scopedSubtree requester (todos d) (task_id R)) (todos d)\<rparr>,
                    log)
      \<and> set log = scopedSubtree requester (todos d) (task_id R)
      \<and> distinct log \<and> last log = task_id R
      \<and> descendantsFirst (set (edgesOf (\<lambda>c. owner c = user_id requester) (todos d))) log
      \<and> (\<forall>x\<in>scopedSubtree requester (todos d) (task_id R). \<forall>u.
            getTaskById u x
              (d\<lparr>todos := without (scopedSubtree requester (todos d) (task_id R)) (todos d)\<rparr>)
            = Inl NotFound)"
proof -
  let ?q = "if isAdmin requester then NoOwnerKey else OwnerIs (user_id requester)"
  let ?C = "scopedSubtree requester (todos d) (task_id R)"
  from assms(4) have m: "ownerMatches (queryOwner ?q) = (\<lambda>c. owner c = user_id requester)"
    by auto
  from assms(4) have m': "(\<lambda>c. isAdmin requester \<or> owner c = user_id requester)
      = (\<lambda>c. owner c = user_id requester)" by simp
  have C: "?C = {x. (x, task_id R) \<in> (set (edgesOf (ownerMatches (queryOwner ?q)) (todos d)))\<^sup>*}"
    unfolding m by (simp add: scopedSubtree_def m')
  from assms(5) have sc: "isAdmin requester \<or> owner R = user_id requester" by simp
  from deleteTask_removes [OF assms(1,2,3) sc refl C] obtain log where
    run: "deleteTask requester (task_id R) d = Some (Inr R, d\<lparr>todos := without ?C (todos d)\<rparr>, log)"
    and lg: "set log = ?C" "distinct log" "last log = task_id R"
      "descendantsFirst (set (edgesOf (ownerMatches (queryOwner ?q)) (todos d))) log"
    by blast
  have gone: "getTaskById u x (d\<lparr>todos := without ?C (todos d)\<rparr>) = Inl NotFound" if "x \<in> ?C" for x u
    using that by (simp add: getTaskById_def findScoped_without)
  from run lg gone show ?thesis
    unfolding m by (intro exI [of _ log]) simp
qed

text \<open>
  An administrator's delete removes the task alone, on every collection with unique
  ids: the hook asks for children whose owner is \<^verbatim>\<open>undefined\<close> and finds none.
\<close>

lemma admin_delete_removes_task_alone:
  assumes "distinct (map task_id (todos d))" and "R \<in> set (todos d)" and "isAdmin requester"
  shows "deleteTask requester (task_id R) d
           = Some (Inr R, d\<lparr>todos := filter (\<lambda>t. task_id t \<noteq> task_id R) (todos d)\<rparr>, [task_id R])"
proof -
  let ?P = "\<lambda>t. task_id t = task_id R \<and> ownerMatches NoOwnerKey t"
  from assms(1,2) have f: "find ?P (todos d) = Some R"
    by (intro find_unique) simp_all
  from assms(1) f have rm: "removeFirst ?P (todos d) = filter (\<lambda>t. task_id t \<noteq> task_id R) (todos d)"
    by (rule removeFirst_unique)
  have "findOneAndDelete (task_id R) NoOwnerKey (todos d, [])
      = Some (find ?P (todos d), removeFirst ?P (todos d),
              (case find ?P (todos d) of None \<Rightarrow> [] | Some t \<Rightarrow> [] @ [task_id R]))"
    by (subst findOneAndDelete.simps) (simp cong: option.case_cong)
  with f rm have "findOneAndDelete (task_id R) NoOwnerKey (todos d, [])
      = Some (Some R, filter (\<lambda>t. task_id t \<noteq> task_id R) (todos d), [task_id R])"
    by simp
  with assms(3) show ?thesis by (simp add: deleteTask_def)
qed

text \<open>
  C1 fails on the administrator's path. Task 10 has the child 11 and the grandchild 12,
  all three in the subtree of the specification. The administrator's delete of 10
  returns task 10 and removes it alone: 11 and 12 stay in the collection, 11 pointing
  at a parent that is gone, and \<^verbatim>\<open>getTaskById\<close> still finds both.
\<close>

theorem admin_delete_keeps_descendants:
  "scopedSubtree \<lparr>user_id = 9, role = Admin\<rparr>
      [exTask 10 3 None 100, exTask 11 3 (Some 10) 101, exTask 12 3 (Some 11) 102] 10
     = {10, 11, 12}
   \<and> deleteTask \<lparr>user_id = 9, role = Admin\<rparr> 10
        \<lparr>todos = [exTask 10 3 None 100, exTask 11 3 (Some 10) 101, exTask 12 3 (Some 11) 102],
          users = []\<rparr>
     = Some (Inr (exTask 10 3 None 100),
             \<lparr>todos = [exTask 11 3 (Some 10) 101, exTask 12 3 (Some 11) 102], users = []\<rparr>,
             [10])
   \<and> getTaskById \<lparr>user_id = 9, role = Admin\<rparr> 11
        \<lparr>todos = [exTask 11 3 (Some 10) 101, exTask 12 3 (Some 11) 102], users = []\<rparr>
     = Inr (exTask 11 3 (Some 10) 101)
   \<and> getTaskById \<lparr>user_id = 9, role = Admin\<rparr> 12
        \<lparr>todos = [exTask 11 3 (Some 10) 101, exTask 12 3 (Some 11) 102], users = []\<rparr>
     = Inr (exTask 12 3 (Some 11) 102)"
proof -
  let ?a = "\<lparr>user_id = 9, role = Admin\<rparr>"
  let ?ts = "[exTask 10 3 None 100, exTask 11 3 (Some 10) 101, exTask 12 3 (Some 11) 102]"
  have sub: "scopedSubtree ?a ?ts 10 = {10, 11, 12}"
    by (auto simp: scopedSubtree_def edgesOf_def exTask_def isAdmin_def rtrancl_insert)
  have del: "deleteTask ?a 10 \<lparr>todos = ?ts, users = []\<rparr>
     = Some (Inr (exTask 10 3 None 100),
             \<lparr>todos = [exTask 11 3 (Some 10) 101, exTask 12 3 (Some 11) 102], users = []\<rparr>, [10])"
    apply (simp add: deleteTask_def isAdmin_def)
    apply (subst findOneAndDelete.simps, simp add: exTask_def)
    done
  have get: "getTaskById ?a 11
        \<lparr>todos = [exTask 11 3 (Some 10) 101, exTask 12 3 (Some 11) 102], users = []\<rparr>
     = Inr (exTask 11 3 (Some 10) 101)"
    "getTaskById ?a 12
        \<lparr>todos = [exTask 11 3 (Some 10) 101, exTask 12 3 (Some 11) 102], users = []\<rparr>
     = Inr (exTask 12 3 (Some 11) 102)"
    by (simp_all add: getTaskById_def findScoped_def findById_def isAdmin_def exTask_def)
  from sub del get show ?thesis by simp
qed

text \<open>
  The same collection with a fourth task, a child of 10 that another user owns: the
  owner's delete of 10 removes 12, 11 and 10 in that order and leaves the other user's
  task, as the scope of the delete has it.
\<close>

theorem user_cascade_removes_subtree_witness:
  "distinct (map task_id [exTask 10 3 None 100, exTask 11 3 (Some 10) 101,
                          exTask 12 3 (Some 11) 102, exTask 13 4 (Some 10) 103])
   \<and> acyclic (parent_rel [exTask 10 3 None 100, exTask 11 3 (Some 10) 101,
                          exTask 12 3 (Some 11) 102, exTask 13 4 (Some 10) 103])
   \<and> \<not> isAdmin \<lparr>user_id = 3, role = User\<rparr>
   \<and> owner (exTask 10 3 None 100) = user_id \<lparr>user_id = 3, role = User\<rparr>
   \<and> scopedSubtree \<lparr>user_id = 3, role = User\<rparr>
        [exTask 10 3 None 100, exTask 11 3 (Some 10) 101,
         exTask 12 3 (Some 11) 102, exTask 13 4 (Some 10) 103] 10 = {10, 11, 12}
   \<and> deleteTask \<lparr>user_id = 3, role = User\<rparr> 10
        \<lparr>todos = [exTask 10 3 None 100, exTask 11 3 (Some 10) 101,
                  exTask 12 3 (Some 11) 102, exTask 13 4 (Some 10) 103], users = []\<rparr>
       = Some (Inr (exTask 10 3 None 100),
               \<lparr>todos = [exTask 13 4 (Some 10) 103], users = []\<rparr>, [12, 11, 10])
   \<and> getTaskById \<lparr>user_id = 3, role = User\<rparr> 10
        \<lparr>todos = [exTask 13 4 (Some 10) 103], users = []\<rparr> = Inl NotFound
   \<and> getTaskById \<lparr>user_id = 3, role = User\<rparr> 11
        \<lparr>todos = [exTask 13 4 (Some 10) 103], users = []\<rparr> = Inl NotFound
   \<and> getTaskById \<lparr>user_id = 3, role = User\<rparr> 12
        \<lparr>todos = [exTask 13 4 (Some 10) 103], users = []\<rparr> = Inl NotFound"
proof -
  let ?u = "\<lparr>user_id = 3, role = User\<rparr>"
  let ?R = "exTask 10 3 None 100"
  let ?X = "exTask 13 4 (Some 10) 103"
  let ?ts = "[?R, exTask 11 3 (Some 10) 101, exTask 12 3 (Some 11) 102, ?X]"
  let ?d = "\<lparr>todos = ?ts, users = []\<rparr>"
  have dist: "distinct (map task_id (todos ?d))"
    by (simp add: exTask_def)
  have ac: "acyclic (parent_rel (todos ?d))"
    by (simp add: parent_rel_def edgesOf_def exTask_def rtrancl_insert acyclic_empty_rel)
  have mem: "?R \<in> set (todos ?d)" by simp
  have na: "\<not> isAdmin ?u" by (simp add: isAdmin_def)
  have own: "owner ?R = user_id ?u" by (simp add: exTask_def)
  have cu: "scopedSubtree ?u (todos ?d) (task_id ?R) = {10, 11, 12}"
    by (auto simp: scopedSubtree_def edgesOf_def exTask_def isAdmin_def rtrancl_insert)
  have wu: "?d\<lparr>todos := without {10, 11, 12} (todos ?d)\<rparr> = \<lparr>todos = [?X], users = []\<rparr>"
    by (simp add: without_def exTask_def)
  from user_cascade_removes_subtree [OF dist ac mem na own]
  have gu: "\<forall>x\<in>{10, 11, 12}. \<forall>u. getTaskById u x \<lparr>todos = [?X], users = []\<rparr> = Inl NotFound"
    unfolding cu wu by blast
  have eu: "deleteTask ?u 10 ?d = Some (Inr ?R, \<lparr>todos = [?X], users = []\<rparr>, [12, 11, 10])"
    apply (simp add: deleteTask_def isAdmin_def)
    apply (subst findOneAndDelete.simps, simp add: exTask_def)
    apply (subst findOneAndDelete.simps, simp add: exTask_def)
    apply (subst findOneAndDelete.simps, simp add: exTask_def)
    done
  have ids: "task_id ?R = 10" "todos ?d = ?ts" by (simp_all add: exTask_def)
  from dist ac na own cu eu gu show ?thesis
    unfolding ids by simp
qed

end
